theory Spec2Isabelle
  imports Main "HOL-Library.Sublist"
begin

section \<open>The modal mediator: data model\<close>

text \<open>
  The service of \<^verbatim>\<open>modal-mediator.ts\<close> keeps three private fields: the map
  \<^verbatim>\<open>modals\<close> from identifiers to \<^verbatim>\<open>ModalState\<close> objects, the set
  \<^verbatim>\<open>subscribers\<close> of callbacks and the array \<^verbatim>\<open>openOrder\<close>.

  A \<^verbatim>\<open>ModalState\<close> is a JavaScript object, so a map holds a reference to it and
  \<^verbatim>\<open>new Map(this.modals)\<close> copies the references, not the objects. The objects
  therefore live in an explicit store \<open>objs\<close>, addressed by natural numbers, with
  \<open>fresh\<close> the next unused address; an object literal allocates at \<open>fresh\<close>.
  The field \<^verbatim>\<open>id\<close> is called \<open>id_ms\<close> here since \<open>id\<close> is the identity of HOL.
\<close>

record ModalState =
  id_ms :: string
  isOpen :: bool

type_synonym addr = nat

text \<open>A \<^verbatim>\<open>Map<string, ModalState>\<close>: keys to references.\<close>

type_synonym js_map = "string \<rightharpoonup> addr"

text \<open>What a reader of such a map sees once the references are followed.\<close>

type_synonym modal_view = "string \<rightharpoonup> ModalState"

text \<open>
  A subscriber is a callback \<^verbatim>\<open>(modals: Map<string, ModalState>) => void\<close>. The set
  compares callbacks by reference, so a callback is named by a reference \<open>fnref\<close> and a
  table (\<open>code\<close> below) gives the body behind each reference. A body reads the map it
  is handed and answers with the statements it runs on it:
  \<^item> \<open>Mutate k g\<close>: \<^verbatim>\<open>const m = modals.get(k); if (m) Object.assign(m, g(m))\<close>, a write
    to the object behind key \<open>k\<close>;
  \<^item> \<open>MapSet k v\<close>: \<^verbatim>\<open>modals.set(k, {...v})\<close> with a new object;
  \<^item> \<open>MapDelete k\<close>: \<^verbatim>\<open>modals.delete(k)\<close>;
  \<^item> \<open>MapClear\<close>: \<^verbatim>\<open>modals.clear()\<close>;
  \<^item> \<open>Throw e\<close>: \<^verbatim>\<open>throw new Error(e)\<close>;
  \<^item> \<open>CallOpenModal i\<close>, \<open>CallCloseModal i\<close>: \<^verbatim>\<open>ModalMediator.openModal(i)\<close> and
    \<^verbatim>\<open>ModalMediator.closeModal(i)\<close>, calls back into the exported singleton;
  \<^item> \<open>CallSubscribe g\<close>: \<^verbatim>\<open>ModalMediator.subscribe(g)\<close>;
  \<^item> \<open>CallUnsubscribe g\<close>: a call of the function that an earlier
    \<^verbatim>\<open>subscribe(g)\<close> returned.
  An exception that leaves a call back is not caught by the body: it leaves the body too.
\<close>

type_synonym fnref = nat

datatype action =
    Mutate string "ModalState \<Rightarrow> ModalState"
  | MapSet string ModalState
  | MapDelete string
  | MapClear
  | Throw string
  | CallOpenModal string
  | CallCloseModal string
  | CallSubscribe fnref
  | CallUnsubscribe fnref

type_synonym ModalSubscriber = "modal_view \<Rightarrow> action list"

type_synonym code = "fnref \<Rightarrow> ModalSubscriber"

text \<open>A call either returns (\<open>Inr\<close>) or throws an error with a message (\<open>Inl\<close>).\<close>

type_synonym 'a completion = "string + 'a"

text \<open>
  The service together with the object store. \<open>subscribers\<close> is a JavaScript
  \<^verbatim>\<open>Set\<close>, kept as ECMAScript specifies its data: the list of its entries in
  insertion order, where \<^verbatim>\<open>delete\<close> puts the marker \<^verbatim>\<open>empty\<close> (here \<open>None\<close>) in the
  place of the entry and \<^verbatim>\<open>add\<close> appends. The places matter to a \<^verbatim>\<open>forEach\<close> that
  is under way while the set changes.
  \<open>calls\<close> is a ghost field, the record a \<^verbatim>\<open>jest.fn()\<close> keeps: every invocation of a
  subscriber with what it saw in the map and how it completed, recorded when it completes.
\<close>

record runtime =
  modals :: js_map
  subscribers :: "fnref option list"
  openOrder :: "string list"
  objs :: "addr \<Rightarrow> ModalState"
  fresh :: addr
  calls :: "(fnref \<times> modal_view \<times> unit completion) list"

text \<open>The singleton right after construction.\<close>

definition ModalMediator :: runtime where
  "ModalMediator =
     \<lparr>modals = Map.empty, subscribers = [], openOrder = [],
      objs = (\<lambda>_. \<lparr>id_ms = [], isOpen = False\<rparr>), fresh = 0, calls = []\<rparr>"

definition view :: "js_map \<Rightarrow> runtime \<Rightarrow> modal_view" where
  "view m s = (\<lambda>k. map_option (objs s) (m k))"

section \<open>Operations\<close>

text \<open>\<^verbatim>\<open>isModalOpen\<close>: \<^verbatim>\<open>const modal = this.modals.get(id); return modal ? modal.isOpen : false\<close>.\<close>

definition isModalOpen :: "runtime \<Rightarrow> string \<Rightarrow> bool" where
  "isModalOpen s i = (case modals s i of None \<Rightarrow> False | Some a \<Rightarrow> isOpen (objs s a))"

text \<open>
  \<^verbatim>\<open>getLastOpenModal\<close>: the loop \<^verbatim>\<open>for (let i = length - 1; i >= 0; i--)\<close>. The
  counter of \<open>scan_down\<close> is \<open>i + 1\<close>, so that \<open>0\<close> is the exit of the loop.
\<close>

fun scan_down :: "runtime \<Rightarrow> nat \<Rightarrow> string option" where
  "scan_down s 0 = None"
| "scan_down s (Suc i) =
     (if isModalOpen s (openOrder s ! i) then Some (openOrder s ! i) else scan_down s i)"

definition getLastOpenModal :: "runtime \<Rightarrow> string option" where
  "getLastOpenModal s = scan_down s (length (openOrder s))"

text \<open>The subscribers in the set, in insertion order.\<close>

fun members :: "fnref option list \<Rightarrow> fnref list" where
  "members [] = []"
| "members (None # slots) = members slots"
| "members (Some f # slots) = f # members slots"

text \<open>\<^verbatim>\<open>Set.prototype.add\<close> and \<^verbatim>\<open>Set.prototype.delete\<close>.\<close>

definition set_add :: "fnref \<Rightarrow> fnref option list \<Rightarrow> fnref option list" where
  "set_add f slots = (if Some f \<in> set slots then slots else slots @ [Some f])"

definition set_delete :: "fnref \<Rightarrow> fnref option list \<Rightarrow> fnref option list" where
  "set_delete f slots = map (\<lambda>e. if e = Some f then None else e) slots"

text \<open>
  \<^verbatim>\<open>subscribe\<close> returns the closure \<^verbatim>\<open>() => { this.subscribers.delete(subscriber) }\<close>,
  which is determined by the subscriber it captured.
\<close>

datatype unsubscribe = Unsubscribe fnref

fun call_unsubscribe :: "unsubscribe \<Rightarrow> runtime \<Rightarrow> runtime" where
  "call_unsubscribe (Unsubscribe f) s = s\<lparr>subscribers := set_delete f (subscribers s)\<rparr>"

text \<open>
  A body can call the service, whose methods call bodies: the recursion is tied by a
  bound on the nesting. The methods below take, as \<open>nested\<close>, what a call back from a
  body does; \<open>service\<close> further down supplies it. \<open>None\<close> is the answer of a computation
  that did not finish within the bound; \<open>Some\<close> carries how it completed and the state it
  left.
\<close>

record api =
  api_openModal :: "string \<Rightarrow> runtime \<Rightarrow> (unit completion \<times> runtime) option"
  api_closeModal :: "string \<Rightarrow> runtime \<Rightarrow> (unit completion \<times> runtime) option"
  api_subscribe :: "fnref \<Rightarrow> runtime \<Rightarrow> (unsubscribe completion \<times> runtime) option"

text \<open>Running the statements of a subscriber body on the map it was handed.\<close>

fun exec :: "api \<Rightarrow> action list \<Rightarrow> js_map \<Rightarrow> runtime \<Rightarrow>
    (unit completion \<times> js_map \<times> runtime) option" where
  "exec nested [] m s = Some (Inr (), m, s)"
| "exec nested (Throw e # rest) m s = Some (Inl e, m, s)"
| "exec nested (Mutate k g # rest) m s =
     (case m k of
        None \<Rightarrow> exec nested rest m s
      | Some a \<Rightarrow> exec nested rest m (s\<lparr>objs := (objs s)(a := g (objs s a))\<rparr>))"
| "exec nested (MapSet k v # rest) m s =
     exec nested rest (m(k \<mapsto> fresh s))
       (s\<lparr>objs := (objs s)(fresh s := v), fresh := Suc (fresh s)\<rparr>)"
| "exec nested (MapDelete k # rest) m s = exec nested rest (m(k := None)) s"
| "exec nested (MapClear # rest) m s = exec nested rest Map.empty s"
| "exec nested (CallOpenModal i # rest) m s =
     (case api_openModal nested i s of
        None \<Rightarrow> None
      | Some (Inl e, s') \<Rightarrow> Some (Inl e, m, s')
      | Some (Inr u, s') \<Rightarrow> exec nested rest m s')"
| "exec nested (CallCloseModal i # rest) m s =
     (case api_closeModal nested i s of
        None \<Rightarrow> None
      | Some (Inl e, s') \<Rightarrow> Some (Inl e, m, s')
      | Some (Inr u, s') \<Rightarrow> exec nested rest m s')"
| "exec nested (CallSubscribe g # rest) m s =
     (case api_subscribe nested g s of
        None \<Rightarrow> None
      | Some (Inl e, s') \<Rightarrow> Some (Inl e, m, s')
      | Some (Inr h, s') \<Rightarrow> exec nested rest m s')"
| "exec nested (CallUnsubscribe g # rest) m s =
     exec nested rest m (call_unsubscribe (Unsubscribe g) s)"

text \<open>One invocation \<^verbatim>\<open>subscriber(m)\<close>, recorded in \<open>calls\<close>.\<close>

definition call_subscriber ::
  "api \<Rightarrow> code \<Rightarrow> fnref \<Rightarrow> js_map \<Rightarrow> runtime \<Rightarrow>
     (unit completion \<times> js_map \<times> runtime) option" where
  "call_subscriber nested c f m s =
     (let v = view m s in
      case exec nested (c f v) m s of
        None \<Rightarrow> None
      | Some (r, m', s') \<Rightarrow> Some (r, m', s'\<lparr>calls := calls s' @ [(f, v, r)]\<rparr>))"

text \<open>
  \<^verbatim>\<open>this.subscribers.forEach(subscriber => subscriber(modalsCopy))\<close>, as
  \<^verbatim>\<open>Set.prototype.forEach\<close> is specified: an index runs over the entries of the set as
  they are at each step, an \<^verbatim>\<open>empty\<close> place is passed over, the number of entries is read
  again after every callback, and an exception leaves the loop. All callbacks get the same
  map object. The set can grow while it is walked, so the walk has a bound \<open>k\<close> on its
  steps.
\<close>

fun forEach_from ::
  "api \<Rightarrow> code \<Rightarrow> nat \<Rightarrow> nat \<Rightarrow> js_map \<Rightarrow> runtime \<Rightarrow> (unit completion \<times> runtime) option" where
  "forEach_from nested c 0 index m s =
     (if length (subscribers s) \<le> index then Some (Inr (), s) else None)"
| "forEach_from nested c (Suc k) index m s =
     (if length (subscribers s) \<le> index then Some (Inr (), s)
      else
        (case subscribers s ! index of
           None \<Rightarrow> forEach_from nested c k (Suc index) m s
         | Some f \<Rightarrow>
             (case call_subscriber nested c f m s of
                None \<Rightarrow> None
              | Some (Inl e, m', s') \<Rightarrow> Some (Inl e, s')
              | Some (Inr u, m', s') \<Rightarrow> forEach_from nested c k (Suc index) m' s')))"

text \<open>
  With the bound \<open>n\<close> of the service, the walk may take as many steps as the set has
  entries when it starts, and \<open>n\<close> more.
\<close>

definition forEach :: "api \<Rightarrow> code \<Rightarrow> nat \<Rightarrow> js_map \<Rightarrow> runtime \<Rightarrow> (unit completion \<times> runtime) option" where
  "forEach nested c n m s = forEach_from nested c (length (subscribers s) + n) 0 m s"

text \<open>\<^verbatim>\<open>notify\<close>: \<^verbatim>\<open>const modalsCopy = new Map(this.modals)\<close>, then the loop.\<close>

definition notify_in :: "api \<Rightarrow> code \<Rightarrow> nat \<Rightarrow> runtime \<Rightarrow> (unit completion \<times> runtime) option" where
  "notify_in nested c n s = forEach nested c n (modals s) s"

text \<open>
  \<^verbatim>\<open>subscribe\<close>: \<^verbatim>\<open>this.subscribers.add(subscriber)\<close>, then
  \<^verbatim>\<open>subscriber(new Map(this.modals))\<close>, then the unsubscribe function is returned.
\<close>

definition subscribe_in ::
  "api \<Rightarrow> code \<Rightarrow> fnref \<Rightarrow> runtime \<Rightarrow> (unsubscribe completion \<times> runtime) option" where
  "subscribe_in nested c f s =
     (let s1 = s\<lparr>subscribers := set_add f (subscribers s)\<rparr> in
      case call_subscriber nested c f (modals s1) s1 of
        None \<Rightarrow> None
      | Some (Inl e, m', s2) \<Rightarrow> Some (Inl e, s2)
      | Some (Inr u, m', s2) \<Rightarrow> Some (Inr (Unsubscribe f), s2))"

text \<open>
  \<^verbatim>\<open>openModal\<close>: \<^verbatim>\<open>this.modals.set(id, { id, isOpen: true })\<close>, the filter and push on
  \<^verbatim>\<open>openOrder\<close>, then \<^verbatim>\<open>this.notify()\<close>.
\<close>

definition openModal_in ::
  "api \<Rightarrow> code \<Rightarrow> nat \<Rightarrow> string \<Rightarrow> runtime \<Rightarrow> (unit completion \<times> runtime) option" where
  "openModal_in nested c n i s =
     notify_in nested c n
       (s\<lparr>modals := (modals s)(i \<mapsto> fresh s),
          objs := (objs s)(fresh s := \<lparr>id_ms = i, isOpen = True\<rparr>),
          fresh := Suc (fresh s),
          openOrder := filter (\<lambda>modalId. modalId \<noteq> i) (openOrder s) @ [i]\<rparr>)"

text \<open>
  \<^verbatim>\<open>closeModal\<close>: under \<^verbatim>\<open>if (this.modals.has(id))\<close>, the entry is replaced by the
  new object \<^verbatim>\<open>{ ...currentModal, isOpen: false }\<close> and \<^verbatim>\<open>this.notify()\<close> runs.
\<close>

definition closeModal_in ::
  "api \<Rightarrow> code \<Rightarrow> nat \<Rightarrow> string \<Rightarrow> runtime \<Rightarrow> (unit completion \<times> runtime) option" where
  "closeModal_in nested c n i s =
     (case modals s i of
        None \<Rightarrow> Some (Inr (), s)
      | Some a \<Rightarrow>
          notify_in nested c n
            (s\<lparr>modals := (modals s)(i \<mapsto> fresh s),
               objs := (objs s)(fresh s := (objs s a)\<lparr>isOpen := False\<rparr>),
               fresh := Suc (fresh s)\<rparr>))"

text \<open>
  The service as a body sees it, with \<open>n\<close> levels of nesting left: at level \<open>0\<close> a call
  back does not finish within the bound, at level \<open>n + 1\<close> it is the method, whose own
  callbacks see the service at level \<open>n\<close>.
\<close>

primrec service :: "code \<Rightarrow> nat \<Rightarrow> api" where
  "service c 0 =
     \<lparr>api_openModal = (\<lambda>i s. None), api_closeModal = (\<lambda>i s. None),
      api_subscribe = (\<lambda>f s. None)\<rparr>"
| "service c (Suc n) =
     \<lparr>api_openModal = openModal_in (service c n) c n,
      api_closeModal = closeModal_in (service c n) c n,
      api_subscribe = subscribe_in (service c n) c\<rparr>"

text \<open>The methods as the application calls them, with bound \<open>n\<close>.\<close>

definition subscribe :: "nat \<Rightarrow> code \<Rightarrow> fnref \<Rightarrow> runtime \<Rightarrow> (unsubscribe completion \<times> runtime) option" where
  "subscribe n c f s = subscribe_in (service c n) c f s"

definition openModal :: "nat \<Rightarrow> code \<Rightarrow> string \<Rightarrow> runtime \<Rightarrow> (unit completion \<times> runtime) option" where
  "openModal n c i s = openModal_in (service c n) c n i s"

definition closeModal :: "nat \<Rightarrow> code \<Rightarrow> string \<Rightarrow> runtime \<Rightarrow> (unit completion \<times> runtime) option" where
  "closeModal n c i s = closeModal_in (service c n) c n i s"

text \<open>
  The listener of the constructor: \<^verbatim>\<open>if (event.key === 'Escape')\<close>, then
  \<^verbatim>\<open>if (lastOpenModal) this.closeModal(lastOpenModal)\<close>. The inner test is JavaScript
  truthiness of a \<^verbatim>\<open>string | null\<close>: \<^verbatim>\<open>null\<close> and the empty string are both falsy.
\<close>

definition truthy :: "string option \<Rightarrow> bool" where
  "truthy v = (case v of None \<Rightarrow> False | Some str \<Rightarrow> str \<noteq> [])"

definition keydown :: "nat \<Rightarrow> code \<Rightarrow> string \<Rightarrow> runtime \<Rightarrow> (unit completion \<times> runtime) option" where
  "keydown n c key s =
     (if key = ''Escape'' then
        (let lastOpenModal = getLastOpenModal s in
         if truthy lastOpenModal then closeModal n c (the lastOpenModal) s else Some (Inr (), s))
      else Some (Inr (), s))"

section \<open>Sequences of calls and what a subscriber observed\<close>

datatype call = Open string | Close string | Key string

fun step :: "nat \<Rightarrow> code \<Rightarrow> call \<Rightarrow> runtime \<Rightarrow> (unit completion \<times> runtime) option" where
  "step n c (Open i) s = openModal n c i s"
| "step n c (Close i) s = closeModal n c i s"
| "step n c (Key k) s = keydown n c k s"

text \<open>
  A caller that goes on after each call, whether it returned or threw (the state a
  throwing call leaves behind is the one the next call starts from).
\<close>

fun run :: "nat \<Rightarrow> code \<Rightarrow> call list \<Rightarrow> runtime \<Rightarrow> runtime option" where
  "run n c [] s = Some s"
| "run n c (x # xs) s =
     (case step n c x s of None \<Rightarrow> None | Some (r, s') \<Rightarrow> run n c xs s')"

text \<open>The invocations recorded between an earlier state and a later one.\<close>

definition new_calls :: "runtime \<Rightarrow> runtime \<Rightarrow> (fnref \<times> modal_view \<times> unit completion) list" where
  "new_calls s s' = drop (length (calls s)) (calls s')"

definition notified :: "runtime \<Rightarrow> runtime \<Rightarrow> fnref list" where
  "notified s s' = map fst (new_calls s s')"

definition invocations :: "fnref \<Rightarrow> runtime \<Rightarrow> runtime \<Rightarrow> nat" where
  "invocations f s s' = length (filter (\<lambda>g. g = f) (notified s s'))"


section \<open>Classes of subscriber bodies\<close>

text \<open>The statements that call back into the service.\<close>

fun is_call :: "action \<Rightarrow> bool" where
  "is_call (CallOpenModal i) = True"
| "is_call (CallCloseModal i) = True"
| "is_call (CallSubscribe g) = True"
| "is_call (CallUnsubscribe g) = True"
| "is_call other = False"

text \<open>
  The bodies of the subscribers \<open>fs\<close> never call back into the service: no
  \<^verbatim>\<open>subscribe\<close>, no unsubscribe function, no \<^verbatim>\<open>openModal\<close>, no \<^verbatim>\<open>closeModal\<close>.
\<close>

definition no_call_back :: "code \<Rightarrow> fnref list \<Rightarrow> bool" where
  "no_call_back c fs = (\<forall>f \<in> set fs. \<forall>v. \<forall>a \<in> set (c f v). \<not> is_call a)"

text \<open>A body is read-only when it never writes to the objects behind the map.\<close>

fun is_write :: "action \<Rightarrow> bool" where
  "is_write (Mutate k g) = True"
| "is_write other = False"

definition read_only :: "code \<Rightarrow> fnref list \<Rightarrow> bool" where
  "read_only c fs = (\<forall>f \<in> set fs. \<forall>v. \<forall>a \<in> set (c f v). \<not> is_write a)"


text \<open>
  The representation invariant: the subscriber set has no repetition, and every
  reference held by \<open>modals\<close> is an allocated address.
\<close>

definition runtime_ok :: "runtime \<Rightarrow> bool" where
  "runtime_ok s =
     (distinct (members (subscribers s)) \<and> (\<forall>k a. modals s k = Some a \<longrightarrow> a < fresh s))"


section \<open>The service when no body calls back\<close>

text \<open>
  When no body calls back, the set does not change while it is walked and nothing is
  nested. The functions of this section are the methods in that case, without bound and
  total; \<open>exec_plain\<close> passes over a call back. The section after the definitions
  proves that the methods above agree with them on bodies that do not call back, and the
  properties of such bodies are proved on them.
\<close>

fun exec_plain :: "action list \<Rightarrow> js_map \<Rightarrow> runtime \<Rightarrow> unit completion \<times> js_map \<times> runtime" where
  "exec_plain [] m s = (Inr (), m, s)"
| "exec_plain (Throw e # rest) m s = (Inl e, m, s)"
| "exec_plain (Mutate k g # rest) m s =
     (case m k of
        None \<Rightarrow> exec_plain rest m s
      | Some a \<Rightarrow> exec_plain rest m (s\<lparr>objs := (objs s)(a := g (objs s a))\<rparr>))"
| "exec_plain (MapSet k v # rest) m s =
     exec_plain rest (m(k \<mapsto> fresh s)) (s\<lparr>objs := (objs s)(fresh s := v), fresh := Suc (fresh s)\<rparr>)"
| "exec_plain (MapDelete k # rest) m s = exec_plain rest (m(k := None)) s"
| "exec_plain (MapClear # rest) m s = exec_plain rest Map.empty s"
| "exec_plain (other # rest) m s = exec_plain rest m s"

definition call_subscriber_plain ::
  "code \<Rightarrow> fnref \<Rightarrow> js_map \<Rightarrow> runtime \<Rightarrow> unit completion \<times> js_map \<times> runtime" where
  "call_subscriber_plain c f m s =
     (let v = view m s in
      case exec_plain (c f v) m s of
        (r, m', s') \<Rightarrow> (r, m', s'\<lparr>calls := calls s' @ [(f, v, r)]\<rparr>))"

fun forEach_plain :: "code \<Rightarrow> fnref list \<Rightarrow> js_map \<Rightarrow> runtime \<Rightarrow> unit completion \<times> runtime" where
  "forEach_plain c [] m s = (Inr (), s)"
| "forEach_plain c (f # fs) m s =
     (case call_subscriber_plain c f m s of
        (Inl e, m', s') \<Rightarrow> (Inl e, s')
      | (Inr u, m', s') \<Rightarrow> forEach_plain c fs m' s')"

definition notify_plain :: "code \<Rightarrow> runtime \<Rightarrow> unit completion \<times> runtime" where
  "notify_plain c s = forEach_plain c (members (subscribers s)) (modals s) s"

definition subscribe_plain :: "code \<Rightarrow> fnref \<Rightarrow> runtime \<Rightarrow> unsubscribe completion \<times> runtime" where
  "subscribe_plain c f s =
     (let s1 = s\<lparr>subscribers := set_add f (subscribers s)\<rparr> in
      case call_subscriber_plain c f (modals s1) s1 of
        (Inl e, m', s2) \<Rightarrow> (Inl e, s2)
      | (Inr u, m', s2) \<Rightarrow> (Inr (Unsubscribe f), s2))"

definition openModal_plain :: "code \<Rightarrow> string \<Rightarrow> runtime \<Rightarrow> unit completion \<times> runtime" where
  "openModal_plain c i s =
     notify_plain c
       (s\<lparr>modals := (modals s)(i \<mapsto> fresh s),
          objs := (objs s)(fresh s := \<lparr>id_ms = i, isOpen = True\<rparr>),
          fresh := Suc (fresh s),
          openOrder := filter (\<lambda>modalId. modalId \<noteq> i) (openOrder s) @ [i]\<rparr>)"

definition closeModal_plain :: "code \<Rightarrow> string \<Rightarrow> runtime \<Rightarrow> unit completion \<times> runtime" where
  "closeModal_plain c i s =
     (case modals s i of
        None \<Rightarrow> (Inr (), s)
      | Some a \<Rightarrow>
          notify_plain c
            (s\<lparr>modals := (modals s)(i \<mapsto> fresh s),
               objs := (objs s)(fresh s := (objs s a)\<lparr>isOpen := False\<rparr>),
               fresh := Suc (fresh s)\<rparr>))"

definition keydown_plain :: "code \<Rightarrow> string \<Rightarrow> runtime \<Rightarrow> unit completion \<times> runtime" where
  "keydown_plain c key s =
     (if key = ''Escape'' then
        (let lastOpenModal = getLastOpenModal s in
         if truthy lastOpenModal then closeModal_plain c (the lastOpenModal) s else (Inr (), s))
      else (Inr (), s))"

fun step_plain :: "code \<Rightarrow> call \<Rightarrow> runtime \<Rightarrow> unit completion \<times> runtime" where
  "step_plain c (Open i) s = openModal_plain c i s"
| "step_plain c (Close i) s = closeModal_plain c i s"
| "step_plain c (Key k) s = keydown_plain c k s"

fun run_plain :: "code \<Rightarrow> call list \<Rightarrow> runtime \<Rightarrow> runtime" where
  "run_plain c [] s = s"
| "run_plain c (x # xs) s = run_plain c xs (snd (step_plain c x s))"

text \<open>The message of the first \<^verbatim>\<open>throw\<close> of a body, its calls back passed over.\<close>

fun first_throw :: "action list \<Rightarrow> string option" where
  "first_throw [] = None"
| "first_throw (Throw e # rest) = Some e"
| "first_throw (other # rest) = first_throw rest"

definition completion_of :: "action list \<Rightarrow> unit completion" where
  "completion_of as = (case first_throw as of None \<Rightarrow> Inr () | Some e \<Rightarrow> Inl e)"

text \<open>
  The shape of the invocations \<open>new\<close> that one run of the loop over the subscribers
  \<open>fs\<close> leaves behind when it completes with \<open>r\<close> and no body calls back: the
  subscribers are visited in order, each as its body completes on what it saw, only the
  last visit can have thrown, and its completion is the completion of the loop.
\<close>

definition fan_out :: "code \<Rightarrow> fnref list \<Rightarrow> unit completion \<Rightarrow>
    (fnref \<times> modal_view \<times> unit completion) list \<Rightarrow> bool" where
  "fan_out c fs r new =
     (prefix (map fst new) fs
      \<and> (\<forall>x \<in> set new. snd (snd x) = completion_of (c (fst x) (fst (snd x))))
      \<and> (\<forall>x \<in> set (butlast new). snd (snd x) = Inr ())
      \<and> r = (if new = [] then Inr () else snd (snd (last new)))
      \<and> (r = Inr () \<longrightarrow> map fst new = fs))"

section \<open>What every run of a method respects\<close>

text \<open>
  \<open>follows F s r s'\<close> relates the state \<open>s\<close> before a computation to its completion \<open>r\<close>
  and the state \<open>s'\<close> after it: invocations are only added to the record; an added
  invocation that threw threw what the computation completes with; and a subscriber of
  \<open>F\<close> that is not in the set before is not in the set after and was not invoked.
  \<open>api_follows\<close> says so of the calls back, \<^verbatim>\<open>subscribe\<close> being called on subscribers
  outside \<open>F\<close>, and \<open>subscribes_none\<close> that no body passes a subscriber of \<open>F\<close> to
  \<^verbatim>\<open>subscribe\<close>.
\<close>

definition follows :: "fnref set \<Rightarrow> runtime \<Rightarrow> unit completion \<Rightarrow> runtime \<Rightarrow> bool" where
  "follows F s r s' =
     (\<exists>new. calls s' = calls s @ new
        \<and> (\<forall>x \<in> set new. \<forall>e. snd (snd x) = Inl e \<longrightarrow> r = Inl e)
        \<and> (\<forall>f \<in> F. Some f \<notin> set (subscribers s) \<longrightarrow>
              Some f \<notin> set (subscribers s') \<and> f \<notin> fst ` set new))"

definition returned :: "unsubscribe completion \<Rightarrow> unit completion" where
  "returned r = (case r of Inl e \<Rightarrow> Inl e | Inr h \<Rightarrow> Inr ())"

definition api_follows :: "fnref set \<Rightarrow> api \<Rightarrow> bool" where
  "api_follows F nested =
     ((\<forall>i s r s'. api_openModal nested i s = Some (r, s') \<longrightarrow> follows F s r s')
      \<and> (\<forall>i s r s'. api_closeModal nested i s = Some (r, s') \<longrightarrow> follows F s r s')
      \<and> (\<forall>g s r s'. g \<notin> F \<longrightarrow> api_subscribe nested g s = Some (r, s') \<longrightarrow>
            follows F s (returned r) s'))"

definition subscribes_none :: "code \<Rightarrow> fnref set \<Rightarrow> bool" where
  "subscribes_none c F = (\<forall>g v. \<forall>f \<in> F. CallSubscribe f \<notin> set (c g v))"

text \<open>Every answer that the calls back of \<open>A\<close> give, those of \<open>B\<close> give too.\<close>

definition api_le :: "api \<Rightarrow> api \<Rightarrow> bool" where
  "api_le A B =
     ((\<forall>i s x. api_openModal A i s = Some x \<longrightarrow> api_openModal B i s = Some x)
      \<and> (\<forall>i s x. api_closeModal A i s = Some x \<longrightarrow> api_closeModal B i s = Some x)
      \<and> (\<forall>g s x. api_subscribe A g s = Some x \<longrightarrow> api_subscribe B g s = Some x))"

section \<open>Bodies used to instantiate the theorems\<close>

text \<open>A subscriber that only looks.\<close>

definition quiet :: code where
  "quiet = (\<lambda>f v. [])"

text \<open>Subscriber \<open>0\<close> always throws; every other subscriber only looks.\<close>

definition grumpy :: code where
  "grumpy = (\<lambda>f v. if f = 0 then [Throw ''boom''] else [])"

text \<open>
  Subscriber \<open>0\<close> runs \<^verbatim>\<open>const m = modals.get('a'); if (m) m.isOpen = false\<close> on the
  map it receives; every other subscriber only looks.
\<close>

definition meddler :: code where
  "meddler = (\<lambda>f v. if f = 0 then [Mutate ''a'' (\<lambda>m. m\<lparr>isOpen := False\<rparr>)] else [])"


text \<open>
  Subscriber \<open>0\<close> runs \<^verbatim>\<open>if (!modals.has('a')) ModalMediator.openModal('a')\<close>; every
  other subscriber only looks.
\<close>

definition eager :: code where
  "eager = (\<lambda>f v. if f = 0 \<and> v ''a'' = None then [CallOpenModal ''a''] else [])"

text \<open>
  Subscriber \<open>0\<close> calls the unsubscribe function of subscriber \<open>1\<close>; every other
  subscriber only looks.
\<close>

definition bouncer :: code where
  "bouncer = (\<lambda>f v. if f = 0 then [CallUnsubscribe 1] else [])"


text \<open>
  The state after \<^verbatim>\<open>subscribe\<close> of the subscribers \<open>0\<close> and \<open>1\<close>, in that order, and
  \<^verbatim>\<open>openModal('a')\<close>, with the record of invocations cleared.
\<close>

definition two_watching :: runtime where
  "two_watching =
     \<lparr>modals = [''a'' \<mapsto> 0], subscribers = [Some 0, Some 1], openOrder = [''a''],
      objs = (\<lambda>_. \<lparr>id_ms = [], isOpen = False\<rparr>)(0 := \<lparr>id_ms = ''a'', isOpen = True\<rparr>),
      fresh = 1, calls = []\<rparr>"



section \<open>What a body that does not call back can and cannot touch\<close>

lemma exec_result: "fst (exec_plain as m s) = completion_of as"
proof (induction as arbitrary: m s)
  case Nil
  then show ?case by (simp add: completion_of_def)
next
  case (Cons a as)
  show ?case
  proof (cases a)
    case (Mutate k g)
    then show ?thesis using Cons.IH by (cases "m k") (simp_all add: completion_of_def)
  qed (simp_all add: Cons.IH [unfolded completion_of_def] completion_of_def)
qed

lemma exec_frame:
  "exec_plain as m s = (r, m', s') \<Longrightarrow>
   modals s' = modals s \<and> subscribers s' = subscribers s \<and> openOrder s' = openOrder s
   \<and> calls s' = calls s \<and> fresh s \<le> fresh s'"
proof (induction as m s rule: exec_plain.induct)
  case (3 k g rest m s)
  then show ?case by (cases "m k") auto
next
  case (4 k v rest m s)
  then show ?case by fastforce
qed auto

lemma exec_read_only:
  "\<forall>a \<in> set as. \<not> is_write a \<Longrightarrow> exec_plain as m s = (r, m', s') \<Longrightarrow> b < fresh s \<Longrightarrow> objs s' b = objs s b"
proof (induction as m s rule: exec_plain.induct)
  case (4 k v rest m s)
  then show ?case by fastforce
qed auto

lemma call_subscriber_frame:
  assumes "call_subscriber_plain c f m s = (r, m', s')"
  shows "modals s' = modals s" "subscribers s' = subscribers s" "openOrder s' = openOrder s"
    "calls s' = calls s @ [(f, view m s, r)]" "fresh s \<le> fresh s'"
  using assms exec_frame[of "c f (view m s)" m s]
  by (auto simp: call_subscriber_plain_def Let_def split: prod.splits)

lemma call_subscriber_result:
  "fst (call_subscriber_plain c f m s) = completion_of (c f (view m s))"
  using exec_result[of "c f (view m s)" m s]
  by (auto simp: call_subscriber_plain_def Let_def split: prod.splits)

lemma call_subscriber_read_only:
  assumes "read_only c [f]" "call_subscriber_plain c f m s = (r, m', s')" "b < fresh s"
  shows "objs s' b = objs s b"
proof -
  obtain s0 where e: "exec_plain (c f (view m s)) m s = (r, m', s0)"
    and s': "s' = s0\<lparr>calls := calls s0 @ [(f, view m s, r)]\<rparr>"
    using assms(2) by (auto simp: call_subscriber_plain_def Let_def split: prod.splits)
  from assms(1) have "\<forall>a \<in> set (c f (view m s)). \<not> is_write a" by (simp add: read_only_def)
  from exec_read_only[OF this e assms(3)] s' show ?thesis by simp
qed

section \<open>The plain loop over the subscribers\<close>

lemma forEach_frame:
  "forEach_plain c fs m s = (r, s') \<Longrightarrow>
   modals s' = modals s \<and> subscribers s' = subscribers s \<and> openOrder s' = openOrder s
   \<and> fresh s \<le> fresh s'"
proof (induction fs arbitrary: m s)
  case Nil
  then show ?case by simp
next
  case (Cons f fs)
  obtain r1 m1 s1 where c1: "call_subscriber_plain c f m s = (r1, m1, s1)"
    by (cases "call_subscriber_plain c f m s") auto
  note fr = call_subscriber_frame[OF c1]
  show ?case
  proof (cases r1)
    case (Inl e)
    with Cons.prems c1 fr show ?thesis by auto
  next
    case (Inr u)
    with Cons.prems c1 have "forEach_plain c fs m1 s1 = (r, s')" by simp
    from Cons.IH[OF this] fr show ?thesis by auto
  qed
qed

lemma forEach_calls:
  "forEach_plain c fs m s = (r, s') \<Longrightarrow> \<exists>new. calls s' = calls s @ new \<and> fan_out c fs r new"
proof (induction fs arbitrary: m s)
  case Nil
  then show ?case by (simp add: fan_out_def)
next
  case (Cons f fs)
  obtain r1 m1 s1 where c1: "call_subscriber_plain c f m s = (r1, m1, s1)"
    by (cases "call_subscriber_plain c f m s") auto
  note fr = call_subscriber_frame[OF c1]
  show ?case
  proof (cases r1)
    case (Inl e)
    with Cons.prems c1 have "r = Inl e" "s' = s1" by auto
    with fr Inl call_subscriber_result[of c f m s] c1 show ?thesis
      by (intro exI[of _ "[(f, view m s, r1)]"]) (auto simp: fan_out_def)
  next
    case (Inr u)
    with Cons.prems c1 have "forEach_plain c fs m1 s1 = (r, s')" by simp
    from Cons.IH[OF this] obtain new where n: "calls s' = calls s1 @ new" "fan_out c fs r new"
      by blast
    have "fan_out c (f # fs) r ((f, view m s, r1) # new)"
      using n(2) call_subscriber_result[of c f m s] c1 Inr
      by (auto simp: fan_out_def butlast_append split: if_splits)
    with n(1) fr(4) show ?thesis by auto
  qed
qed

lemma forEach_first_view:
  "forEach_plain c (f # fs) m s = (r, s') \<Longrightarrow> fst (snd (calls s' ! length (calls s))) = view m s"
proof -
  assume a: "forEach_plain c (f # fs) m s = (r, s')"
  obtain r1 m1 s1 where c1: "call_subscriber_plain c f m s = (r1, m1, s1)"
    by (cases "call_subscriber_plain c f m s") auto
  note fr = call_subscriber_frame[OF c1]
  show ?thesis
  proof (cases r1)
    case (Inl e)
    with a c1 have "s' = s1" by auto
    with fr show ?thesis by (simp add: nth_append)
  next
    case (Inr u)
    with a c1 have "forEach_plain c fs m1 s1 = (r, s')" by simp
    from forEach_calls[OF this] obtain new where "calls s' = calls s1 @ new" by blast
    with fr show ?thesis by (simp add: nth_append)
  qed
qed

lemma forEach_read_only:
  "read_only c fs \<Longrightarrow> forEach_plain c fs m s = (r, s') \<Longrightarrow> b < fresh s \<Longrightarrow> objs s' b = objs s b"
proof (induction fs arbitrary: m s)
  case Nil
  then show ?case by simp
next
  case (Cons f fs)
  obtain r1 m1 s1 where c1: "call_subscriber_plain c f m s = (r1, m1, s1)"
    by (cases "call_subscriber_plain c f m s") auto
  from Cons.prems(1) have p1: "read_only c [f]" and p2: "read_only c fs"
    by (auto simp: read_only_def)
  have o1: "objs s1 b = objs s b" by (rule call_subscriber_read_only[OF p1 c1 Cons.prems(3)])
  have f1: "fresh s \<le> fresh s1" using call_subscriber_frame(5)[OF c1] .
  show ?case
  proof (cases r1)
    case (Inl e)
    with Cons.prems c1 o1 show ?thesis by auto
  next
    case (Inr u)
    with Cons.prems c1 have "forEach_plain c fs m1 s1 = (r, s')" by simp
    from Cons.IH[OF p2 this] f1 Cons.prems(3) o1 show ?thesis by simp
  qed
qed


lemma distinct_filter_eq:
  "distinct xs \<Longrightarrow> length (filter (\<lambda>g. g = f) xs) = (if f \<in> set xs then 1 else 0)"
  by (induction xs) auto

lemma fan_out_at_most_once:
  assumes "fan_out c fs r new" "distinct fs"
  shows "length (filter (\<lambda>g. g = f) (map fst new)) \<le> 1"
proof -
  from assms have "distinct (map fst new)" by (auto simp: fan_out_def prefix_def)
  from distinct_filter_eq[OF this, of f] show ?thesis by (simp split: if_splits)
qed

lemma fan_out_exactly_once:
  assumes "fan_out c fs (Inr ()) new" "distinct fs" "f \<in> set fs"
  shows "length (filter (\<lambda>g. g = f) (map fst new)) = 1"
proof -
  from assms have "map fst new = fs" by (simp add: fan_out_def)
  with assms(2,3) show ?thesis by (simp add: distinct_filter_eq)
qed

section \<open>The scan for the last open panel\<close>

lemma getLastOpenModal_find:
  "getLastOpenModal s = List.find (isModalOpen s) (rev (openOrder s))"
proof -
  have "n \<le> length (openOrder s) \<Longrightarrow>
      scan_down s n = List.find (isModalOpen s) (rev (take n (openOrder s)))" for n
    by (induction n) (auto simp: take_Suc_conv_app_nth)
  then show ?thesis by (simp add: getLastOpenModal_def)
qed

lemma getLastOpenModal_is_open: "getLastOpenModal s = Some j \<Longrightarrow> isModalOpen s j"
  by (auto simp: getLastOpenModal_find find_Some_iff)


lemma notify_shape:
  assumes "notify_plain c s = (r, s')"
  shows "modals s' = modals s" "subscribers s' = subscribers s" "openOrder s' = openOrder s"
    "fresh s \<le> fresh s'" "calls s' = calls s @ new_calls s s'"
    "fan_out c (members (subscribers s)) r (new_calls s s')"
proof -
  from assms have fe: "forEach_plain c (members (subscribers s)) (modals s) s = (r, s')" by (simp add: notify_plain_def)
  from forEach_frame[OF fe] show "modals s' = modals s" "subscribers s' = subscribers s"
    "openOrder s' = openOrder s" "fresh s \<le> fresh s'" by simp_all
  from forEach_calls[OF fe] obtain new where n: "calls s' = calls s @ new"
    "fan_out c (members (subscribers s)) r new" by blast
  then have "new_calls s s' = new" by (simp add: new_calls_def)
  with n show "calls s' = calls s @ new_calls s s'" "fan_out c (members (subscribers s)) r (new_calls s s')"
    by simp_all
qed

lemma notify_read_only:
  assumes "notify_plain c s = (r, s')" "read_only c (members (subscribers s))" "b < fresh s"
  shows "objs s' b = objs s b"
  using assms forEach_read_only[of c "members (subscribers s)" "modals s" s r s' b] by (simp add: notify_plain_def)

lemma openModal_shape:
  assumes "openModal_plain c i s = (r, s')"
  shows "modals s' = (modals s)(i \<mapsto> fresh s)" "subscribers s' = subscribers s"
    "openOrder s' = filter (\<lambda>modalId. modalId \<noteq> i) (openOrder s) @ [i]"
    "fresh s < fresh s'" "calls s' = calls s @ new_calls s s'"
    "fan_out c (members (subscribers s)) r (new_calls s s')"
proof -
  let ?s0 = "s\<lparr>modals := (modals s)(i \<mapsto> fresh s),
          objs := (objs s)(fresh s := \<lparr>id_ms = i, isOpen = True\<rparr>),
          fresh := Suc (fresh s),
          openOrder := filter (\<lambda>modalId. modalId \<noteq> i) (openOrder s) @ [i]\<rparr>"
  from assms have n: "notify_plain c ?s0 = (r, s')" by (simp add: openModal_plain_def)
  have nc: "new_calls ?s0 s' = new_calls s s'" by (simp add: new_calls_def)
  from notify_shape[OF n] nc
  show "modals s' = (modals s)(i \<mapsto> fresh s)" "subscribers s' = subscribers s"
    "openOrder s' = filter (\<lambda>modalId. modalId \<noteq> i) (openOrder s) @ [i]"
    "fresh s < fresh s'" "calls s' = calls s @ new_calls s s'"
    "fan_out c (members (subscribers s)) r (new_calls s s')"
    by simp_all
qed

lemma openModal_read_only:
  assumes "openModal_plain c i s = (r, s')" "read_only c (members (subscribers s))" "b \<le> fresh s"
  shows "objs s' b = ((objs s)(fresh s := \<lparr>id_ms = i, isOpen = True\<rparr>)) b"
proof -
  let ?s0 = "s\<lparr>modals := (modals s)(i \<mapsto> fresh s),
          objs := (objs s)(fresh s := \<lparr>id_ms = i, isOpen = True\<rparr>),
          fresh := Suc (fresh s),
          openOrder := filter (\<lambda>modalId. modalId \<noteq> i) (openOrder s) @ [i]\<rparr>"
  from assms have n: "notify_plain c ?s0 = (r, s')" by (simp add: openModal_plain_def)
  from notify_read_only[OF n, of b] assms(2,3) show ?thesis by simp
qed

lemma closeModal_shape:
  assumes "closeModal_plain c i s = (r, s')" "modals s i = Some a"
  shows "modals s' = (modals s)(i \<mapsto> fresh s)" "subscribers s' = subscribers s"
    "openOrder s' = openOrder s"
    "fresh s < fresh s'" "calls s' = calls s @ new_calls s s'"
    "fan_out c (members (subscribers s)) r (new_calls s s')"
proof -
  let ?s0 = "s\<lparr>modals := (modals s)(i \<mapsto> fresh s),
               objs := (objs s)(fresh s := (objs s a)\<lparr>isOpen := False\<rparr>),
               fresh := Suc (fresh s)\<rparr>"
  from assms have n: "notify_plain c ?s0 = (r, s')" by (simp add: closeModal_plain_def)
  have nc: "new_calls ?s0 s' = new_calls s s'" by (simp add: new_calls_def)
  from notify_shape[OF n] nc
  show "modals s' = (modals s)(i \<mapsto> fresh s)" "subscribers s' = subscribers s"
    "openOrder s' = openOrder s"
    "fresh s < fresh s'" "calls s' = calls s @ new_calls s s'"
    "fan_out c (members (subscribers s)) r (new_calls s s')"
    by simp_all
qed

lemma closeModal_read_only:
  assumes "closeModal_plain c i s = (r, s')" "modals s i = Some a" "read_only c (members (subscribers s))"
    "b \<le> fresh s"
  shows "objs s' b = ((objs s)(fresh s := (objs s a)\<lparr>isOpen := False\<rparr>)) b"
proof -
  let ?s0 = "s\<lparr>modals := (modals s)(i \<mapsto> fresh s),
               objs := (objs s)(fresh s := (objs s a)\<lparr>isOpen := False\<rparr>),
               fresh := Suc (fresh s)\<rparr>"
  from assms have n: "notify_plain c ?s0 = (r, s')" by (simp add: closeModal_plain_def)
  from notify_read_only[OF n, of b] assms(3,4) show ?thesis by simp
qed

lemma closeModal_absent: "modals s i = None \<Longrightarrow> closeModal_plain c i s = (Inr (), s)"
  by (simp add: closeModal_plain_def)

text \<open>
  Every call either runs the loop over the subscribers once, or invokes nobody and
  returns.
\<close>

lemma step_shape:
  assumes "step_plain c x s = (r, s')"
  shows "subscribers s' = subscribers s \<and> calls s' = calls s @ new_calls s s'
    \<and> fresh s \<le> fresh s'
    \<and> (fan_out c (members (subscribers s)) r (new_calls s s') \<or> (new_calls s s' = [] \<and> r = Inr ()))"
proof -
  have idle: ?thesis if "s' = s" "r = Inr ()"
    using that by (simp add: new_calls_def)
  have closing: ?thesis if "closeModal_plain c i s = (r, s')" for i
  proof (cases "modals s i")
    case None
    with that closeModal_absent[of s i c] idle show ?thesis by simp
  next
    case (Some a)
    from closeModal_shape[OF that Some] show ?thesis by simp
  qed
  show ?thesis
  proof (cases x)
    case (Open i)
    with assms have "openModal_plain c i s = (r, s')" by simp
    from openModal_shape[OF this] show ?thesis by simp
  next
    case (Close i)
    with assms closing show ?thesis by simp
  next
    case (Key k)
    show ?thesis
    proof (cases "k = ''Escape'' \<and> truthy (getLastOpenModal s)")
      case True
      with Key assms have "closeModal_plain c (the (getLastOpenModal s)) s = (r, s')"
        by (simp add: keydown_plain_def)
      with closing show ?thesis by blast
    next
      case False
      with Key assms have "s' = s" "r = Inr ()" by (auto simp: keydown_plain_def Let_def split: if_splits)
      with idle show ?thesis by simp
    qed
  qed
qed





section \<open>The set of subscribers\<close>

lemma members_append: "members (xs @ ys) = members xs @ members ys"
  by (induction xs rule: members.induct) simp_all

lemma set_members: "f \<in> set (members slots) \<longleftrightarrow> Some f \<in> set slots"
  by (induction slots rule: members.induct) auto

lemma members_set_add:
  "members (set_add f slots) = (if f \<in> set (members slots) then members slots else members slots @ [f])"
  by (simp add: set_add_def set_members members_append)

lemma members_set_delete: "members (set_delete f slots) = filter (\<lambda>g. g \<noteq> f) (members slots)"
  by (induction slots rule: members.induct) (simp_all add: set_delete_def)


section \<open>The methods agree with the plain ones on bodies that do not call back\<close>

lemma exec_plain_eq:
  "\<forall>a \<in> set as. \<not> is_call a \<Longrightarrow> exec nested as m s = Some (exec_plain as m s)"
proof (induction as arbitrary: m s)
  case Nil
  then show ?case by simp
next
  case (Cons a as)
  then have ih: "\<And>m s. exec nested as m s = Some (exec_plain as m s)" by simp
  from Cons.prems have a: "\<not> is_call a" by simp
  show ?case
  proof (cases a)
    case (Mutate k g)
    then show ?thesis using ih by (cases "m k") simp_all
  qed (use a ih in simp_all)
qed

lemma call_subscriber_plain_eq:
  assumes "no_call_back c [f]"
  shows "call_subscriber nested c f m s = Some (call_subscriber_plain c f m s)"
proof -
  from assms have "\<forall>a \<in> set (c f (view m s)). \<not> is_call a" by (simp add: no_call_back_def)
  from exec_plain_eq[OF this, of nested m s] show ?thesis
    by (simp add: call_subscriber_def call_subscriber_plain_def Let_def split: prod.splits)
qed

lemma forEach_from_plain_eq:
  "no_call_back c (members (subscribers s)) \<Longrightarrow> length (subscribers s) - i \<le> k \<Longrightarrow>
   forEach_from nested c k i m s = Some (forEach_plain c (members (drop i (subscribers s))) m s)"
proof (induction k arbitrary: i m s)
  case 0
  then show ?case by simp
next
  case (Suc k)
  show ?case
  proof (cases "length (subscribers s) \<le> i")
    case True
    then show ?thesis by simp
  next
    case False
    then have i: "i < length (subscribers s)" by simp
    then have dr: "drop i (subscribers s) = subscribers s ! i # drop (Suc i) (subscribers s)"
      by (simp add: Cons_nth_drop_Suc)
    from Suc.prems(2) i have k: "length (subscribers s) - Suc i \<le> k" by simp
    show ?thesis
    proof (cases "subscribers s ! i")
      case None
      with False dr Suc.IH[OF Suc.prems(1) k, of m] show ?thesis by simp
    next
      case (Some f)
      with i have "Some f \<in> set (subscribers s)" by (metis nth_mem)
      then have "f \<in> set (members (subscribers s))" by (simp add: set_members)
      with Suc.prems(1) have nf: "no_call_back c [f]" by (simp add: no_call_back_def)
      obtain r m1 s1 where c1: "call_subscriber_plain c f m s = (r, m1, s1)"
        by (cases "call_subscriber_plain c f m s") auto
      from call_subscriber_frame(2)[OF c1] have same: "subscribers s1 = subscribers s" .
      from call_subscriber_plain_eq[OF nf, of nested m s] c1
      have c2: "call_subscriber nested c f m s = Some (r, m1, s1)" by simp
      show ?thesis
      proof (cases r)
        case (Inl e)
        with False Some dr c1 c2 show ?thesis by simp
      next
        case (Inr u)
        from Suc.IH[of s1 "Suc i" m1] Suc.prems(1) k same
        have "forEach_from nested c k (Suc i) m1 s1
              = Some (forEach_plain c (members (drop (Suc i) (subscribers s))) m1 s1)" by simp
        with False Some dr c1 c2 Inr show ?thesis by simp
      qed
    qed
  qed
qed

lemma notify_plain_eq:
  assumes "no_call_back c (members (subscribers s))"
  shows "notify_in nested c n s = Some (notify_plain c s)"
  using forEach_from_plain_eq[OF assms, of 0 "length (subscribers s) + n" nested "modals s"]
  by (simp add: notify_in_def forEach_def notify_plain_def)

lemma openModal_plain_eq:
  assumes "no_call_back c (members (subscribers s))"
  shows "openModal n c i s = Some (openModal_plain c i s)"
  using assms by (simp add: openModal_def openModal_in_def openModal_plain_def notify_plain_eq)

lemma closeModal_plain_eq:
  assumes "no_call_back c (members (subscribers s))"
  shows "closeModal n c i s = Some (closeModal_plain c i s)"
  using assms
  by (simp add: closeModal_def closeModal_in_def closeModal_plain_def notify_plain_eq
      split: option.splits)

lemma subscribe_plain_eq:
  assumes "no_call_back c [f]"
  shows "subscribe n c f s = Some (subscribe_plain c f s)"
  using call_subscriber_plain_eq[OF assms]
  by (simp add: subscribe_def subscribe_in_def subscribe_plain_def Let_def
      split: prod.splits sum.splits)

lemma keydown_plain_eq:
  assumes "no_call_back c (members (subscribers s))"
  shows "keydown n c k s = Some (keydown_plain c k s)"
  using assms by (simp add: keydown_def keydown_plain_def Let_def closeModal_plain_eq)

lemma step_plain_eq:
  assumes "no_call_back c (members (subscribers s))"
  shows "step n c x s = Some (step_plain c x s)"
  using assms by (cases x) (simp_all add: openModal_plain_eq closeModal_plain_eq keydown_plain_eq)

lemma run_plain_eq:
  "no_call_back c (members (subscribers s)) \<Longrightarrow> run n c xs s = Some (run_plain c xs s)"
proof (induction xs arbitrary: s)
  case Nil
  then show ?case by simp
next
  case (Cons x xs)
  obtain r s1 where st: "step_plain c x s = (r, s1)" by (cases "step_plain c x s") auto
  from step_shape[OF st] have "subscribers s1 = subscribers s" by simp
  with Cons.prems have "no_call_back c (members (subscribers s1))" by simp
  from Cons.IH[OF this] step_plain_eq[OF Cons.prems, of n x] st show ?case by simp
qed


section \<open>What every run of a method respects, call backs included\<close>

lemma follows_silent:
  assumes "calls s1 = calls s"
    "\<And>f. f \<in> F \<Longrightarrow> Some f \<in> set (subscribers s1) \<Longrightarrow> Some f \<in> set (subscribers s)"
  shows "follows F s r s1"
  unfolding follows_def using assms by (intro exI[of _ "[]"]) auto

lemma follows_trans:
  assumes "follows F s (Inr ()) s1" "follows F s1 r s2"
  shows "follows F s r s2"
proof -
  from assms(1) obtain n1 where n1: "calls s1 = calls s @ n1"
    "\<forall>x \<in> set n1. \<forall>e. snd (snd x) \<noteq> Inl e"
    "\<forall>f \<in> F. Some f \<notin> set (subscribers s) \<longrightarrow> Some f \<notin> set (subscribers s1) \<and> f \<notin> fst ` set n1"
    unfolding follows_def by auto
  from assms(2) obtain n2 where n2: "calls s2 = calls s1 @ n2"
    "\<forall>x \<in> set n2. \<forall>e. snd (snd x) = Inl e \<longrightarrow> r = Inl e"
    "\<forall>f \<in> F. Some f \<notin> set (subscribers s1) \<longrightarrow> Some f \<notin> set (subscribers s2) \<and> f \<notin> fst ` set n2"
    unfolding follows_def by auto
  have "calls s2 = calls s @ (n1 @ n2)" using n1(1) n2(1) by simp
  moreover have "\<forall>x \<in> set (n1 @ n2). \<forall>e. snd (snd x) = Inl e \<longrightarrow> r = Inl e"
    using n1(2) n2(2) by auto
  moreover have "\<forall>f \<in> F. Some f \<notin> set (subscribers s) \<longrightarrow>
      Some f \<notin> set (subscribers s2) \<and> f \<notin> fst ` set (n1 @ n2)"
    using n1(3) n2(3) by auto
  ultimately show ?thesis unfolding follows_def by blast
qed

lemma follows_record:
  assumes "follows F s r s1" "\<And>f. f \<in> F \<Longrightarrow> Some f \<notin> set (subscribers s) \<Longrightarrow> g \<noteq> f"
  shows "follows F s r (s1\<lparr>calls := calls s1 @ [(g, v, r)]\<rparr>)"
proof -
  from assms(1) obtain n1 where n1: "calls s1 = calls s @ n1"
    "\<forall>x \<in> set n1. \<forall>e. snd (snd x) = Inl e \<longrightarrow> r = Inl e"
    "\<forall>f \<in> F. Some f \<notin> set (subscribers s) \<longrightarrow> Some f \<notin> set (subscribers s1) \<and> f \<notin> fst ` set n1"
    unfolding follows_def by auto
  let ?n = "n1 @ [(g, v, r)]"
  have "calls (s1\<lparr>calls := calls s1 @ [(g, v, r)]\<rparr>) = calls s @ ?n" using n1(1) by simp
  moreover have "\<forall>x \<in> set ?n. \<forall>e. snd (snd x) = Inl e \<longrightarrow> r = Inl e" using n1(2) by auto
  moreover have "\<forall>f \<in> F. Some f \<notin> set (subscribers s) \<longrightarrow>
      Some f \<notin> set (subscribers (s1\<lparr>calls := calls s1 @ [(g, v, r)]\<rparr>)) \<and> f \<notin> fst ` set ?n"
    using n1(3) assms(2) by auto
  ultimately show ?thesis unfolding follows_def by blast
qed

lemma exec_follows:
  assumes "api_follows F nested"
  shows "\<forall>a \<in> set as. \<forall>f \<in> F. a \<noteq> CallSubscribe f \<Longrightarrow>
    exec nested as m s = Some (r, m', s') \<Longrightarrow> follows F s r s'"
proof (induction as arbitrary: m s)
  case Nil
  then show ?case by (simp add: follows_silent)
next
  case (Cons a as)
  from Cons.prems(1) have rest: "\<forall>a \<in> set as. \<forall>f \<in> F. a \<noteq> CallSubscribe f" by simp
  note ih = Cons.IH[OF rest]
  have after: "follows F s r s'"
    if "follows F s (Inr ()) s0" "exec nested as m0 s0 = Some (r, m', s')" for m0 s0
    using follows_trans[OF that(1) ih[OF that(2)]] .
  show ?case
  proof (cases a)
    case (Mutate k g)
    show ?thesis
    proof (cases "m k")
      case None
      with Mutate Cons.prems(2) ih show ?thesis by simp
    next
      case (Some b)
      let ?s0 = "s\<lparr>objs := (objs s)(b := g (objs s b))\<rparr>"
      have "follows F s (Inr ()) ?s0" by (rule follows_silent) simp_all
      with Mutate Some Cons.prems(2) after show ?thesis by simp
    qed
  next
    case (MapSet k v)
    let ?s0 = "s\<lparr>objs := (objs s)(fresh s := v), fresh := Suc (fresh s)\<rparr>"
    have "follows F s (Inr ()) ?s0" by (rule follows_silent) simp_all
    with MapSet Cons.prems(2) after show ?thesis by simp
  next
    case (MapDelete k)
    with Cons.prems(2) ih show ?thesis by simp
  next
    case MapClear
    with Cons.prems(2) ih show ?thesis by simp
  next
    case (Throw e)
    with Cons.prems(2) show ?thesis by (simp add: follows_silent)
  next
    case (CallOpenModal i)
    show ?thesis
    proof (cases "api_openModal nested i s")
      case None
      with CallOpenModal Cons.prems(2) show ?thesis by simp
    next
      case (Some p)
      obtain r1 s1 where p: "p = (r1, s1)" by (cases p) auto
      from assms Some p have f1: "follows F s r1 s1" by (simp add: api_follows_def)
      show ?thesis
      proof (cases r1)
        case (Inl e)
        with CallOpenModal Some p Cons.prems(2) f1 show ?thesis by auto
      next
        case (Inr u)
        with CallOpenModal Some p Cons.prems(2) f1 after show ?thesis by auto
      qed
    qed
  next
    case (CallCloseModal i)
    show ?thesis
    proof (cases "api_closeModal nested i s")
      case None
      with CallCloseModal Cons.prems(2) show ?thesis by simp
    next
      case (Some p)
      obtain r1 s1 where p: "p = (r1, s1)" by (cases p) auto
      from assms Some p have f1: "follows F s r1 s1" by (simp add: api_follows_def)
      show ?thesis
      proof (cases r1)
        case (Inl e)
        with CallCloseModal Some p Cons.prems(2) f1 show ?thesis by auto
      next
        case (Inr u)
        with CallCloseModal Some p Cons.prems(2) f1 after show ?thesis by auto
      qed
    qed
  next
    case (CallSubscribe g)
    with Cons.prems(1) have g: "g \<notin> F" by auto
    show ?thesis
    proof (cases "api_subscribe nested g s")
      case None
      with CallSubscribe Cons.prems(2) show ?thesis by simp
    next
      case (Some p)
      obtain r1 s1 where p: "p = (r1, s1)" by (cases p) auto
      from assms Some p g have f1: "follows F s (returned r1) s1" by (simp add: api_follows_def)
      show ?thesis
      proof (cases r1)
        case (Inl e)
        with CallSubscribe Some p Cons.prems(2) f1 show ?thesis by (auto simp: returned_def)
      next
        case (Inr h)
        with CallSubscribe Some p Cons.prems(2) f1 after show ?thesis by (auto simp: returned_def)
      qed
    qed
  next
    case (CallUnsubscribe g)
    let ?s0 = "call_unsubscribe (Unsubscribe g) s"
    have "follows F s (Inr ()) ?s0"
      by (rule follows_silent) (auto simp: set_delete_def split: if_splits)
    with CallUnsubscribe Cons.prems(2) after show ?thesis by simp
  qed
qed

lemma call_subscriber_follows:
  assumes "api_follows F nested" "subscribes_none c F"
    "\<And>f. f \<in> F \<Longrightarrow> Some f \<notin> set (subscribers s) \<Longrightarrow> g \<noteq> f"
    "call_subscriber nested c g m s = Some (r, m', s')"
  shows "follows F s r s'"
proof -
  from assms(4) obtain s0 where e: "exec nested (c g (view m s)) m s = Some (r, m', s0)"
    and s': "s' = s0\<lparr>calls := calls s0 @ [(g, view m s, r)]\<rparr>"
    by (auto simp: call_subscriber_def Let_def split: option.splits)
  from assms(2) have "\<forall>a \<in> set (c g (view m s)). \<forall>f \<in> F. a \<noteq> CallSubscribe f"
    by (auto simp: subscribes_none_def)
  from exec_follows[OF assms(1) this e] have "follows F s r s0" .
  from follows_record[OF this assms(3)] s' show ?thesis by simp
qed

lemma forEach_from_follows:
  assumes "api_follows F nested" "subscribes_none c F"
  shows "forEach_from nested c k i m s = Some (r, s') \<Longrightarrow> follows F s r s'"
proof (induction k arbitrary: i m s)
  case 0
  then show ?case by (auto simp: follows_silent split: if_splits)
next
  case (Suc k)
  show ?case
  proof (cases "length (subscribers s) \<le> i")
    case True
    with Suc.prems show ?thesis by (simp add: follows_silent)
  next
    case False
    show ?thesis
    proof (cases "subscribers s ! i")
      case None
      with False Suc.prems Suc.IH show ?thesis by simp
    next
      case (Some g)
      with False have mem: "Some g \<in> set (subscribers s)" by (metis not_le nth_mem)
      show ?thesis
      proof (cases "call_subscriber nested c g m s")
        case None
        with False Some Suc.prems show ?thesis by simp
      next
        case (Some p)
        obtain r1 m1 s1 where p: "p = (r1, m1, s1)" by (cases p) auto
        have f1: "follows F s r1 s1"
          by (rule call_subscriber_follows[OF assms _ Some[unfolded p]]) (use mem in auto)
        show ?thesis
        proof (cases r1)
          case (Inl e)
          with False \<open>subscribers s ! i = Some g\<close> Some p Suc.prems f1 show ?thesis by auto
        next
          case (Inr u)
          with False \<open>subscribers s ! i = Some g\<close> Some p Suc.prems
          have "forEach_from nested c k (Suc i) m1 s1 = Some (r, s')" by simp
          from Suc.IH[OF this] f1 Inr show ?thesis by (auto intro: follows_trans)
        qed
      qed
    qed
  qed
qed

lemma notify_in_follows:
  assumes "api_follows F nested" "subscribes_none c F" "notify_in nested c n s = Some (r, s')"
  shows "follows F s r s'"
  using forEach_from_follows[OF assms(1,2)] assms(3) by (simp add: notify_in_def forEach_def)

lemma openModal_in_follows:
  assumes "api_follows F nested" "subscribes_none c F" "openModal_in nested c n i s = Some (r, s')"
  shows "follows F s r s'"
proof -
  let ?s0 = "s\<lparr>modals := (modals s)(i \<mapsto> fresh s),
          objs := (objs s)(fresh s := \<lparr>id_ms = i, isOpen = True\<rparr>),
          fresh := Suc (fresh s),
          openOrder := filter (\<lambda>modalId. modalId \<noteq> i) (openOrder s) @ [i]\<rparr>"
  have "follows F s (Inr ()) ?s0" by (rule follows_silent) simp_all
  moreover from assms(3) have "notify_in nested c n ?s0 = Some (r, s')" by (simp add: openModal_in_def)
  from notify_in_follows[OF assms(1,2) this] have "follows F ?s0 r s'" .
  ultimately show ?thesis by (rule follows_trans)
qed

lemma closeModal_in_follows:
  assumes "api_follows F nested" "subscribes_none c F" "closeModal_in nested c n i s = Some (r, s')"
  shows "follows F s r s'"
proof (cases "modals s i")
  case None
  with assms(3) show ?thesis by (simp add: closeModal_in_def follows_silent)
next
  case (Some a)
  let ?s0 = "s\<lparr>modals := (modals s)(i \<mapsto> fresh s),
               objs := (objs s)(fresh s := (objs s a)\<lparr>isOpen := False\<rparr>),
               fresh := Suc (fresh s)\<rparr>"
  have "follows F s (Inr ()) ?s0" by (rule follows_silent) simp_all
  moreover from assms(3) Some have "notify_in nested c n ?s0 = Some (r, s')"
    by (simp add: closeModal_in_def)
  from notify_in_follows[OF assms(1,2) this] have "follows F ?s0 r s'" .
  ultimately show ?thesis by (rule follows_trans)
qed

lemma subscribe_in_follows:
  assumes "api_follows F nested" "subscribes_none c F" "g \<notin> F"
    "subscribe_in nested c g s = Some (r, s')"
  shows "follows F s (returned r) s'"
proof -
  let ?s1 = "s\<lparr>subscribers := set_add g (subscribers s)\<rparr>"
  from assms(4) obtain q m' where c1: "call_subscriber nested c g (modals s) ?s1 = Some (q, m', s')"
    and r: "returned r = q"
    by (auto simp: subscribe_in_def Let_def returned_def split: option.splits sum.splits)
  have "follows F s (Inr ()) ?s1"
    by (rule follows_silent) (use assms(3) in \<open>auto simp: set_add_def split: if_splits\<close>)
  moreover have "follows F ?s1 q s'"
    by (rule call_subscriber_follows[OF assms(1,2) _ c1]) (use assms(3) in auto)
  ultimately show ?thesis unfolding r by (rule follows_trans)
qed

lemma service_follows:
  assumes "subscribes_none c F"
  shows "api_follows F (service c n)"
proof (induction n)
  case 0
  then show ?case by (simp add: api_follows_def)
next
  case (Suc n)
  show ?case
    unfolding api_follows_def
    using openModal_in_follows[OF Suc assms] closeModal_in_follows[OF Suc assms]
      subscribe_in_follows[OF Suc assms]
    by simp
qed


lemma subscribe_follows:
  assumes "subscribes_none c F" "g \<notin> F" "subscribe n c g s = Some (r, s')"
  shows "follows F s (returned r) s'"
  using subscribe_in_follows[OF service_follows[OF assms(1)] assms(1,2)] assms(3)
  by (simp add: subscribe_def)



section \<open>The bound decides whether an answer is reached, never which\<close>

lemma exec_mono:
  assumes "api_le A B"
  shows "exec A as m s = Some x \<Longrightarrow> exec B as m s = Some x"
proof (induction as arbitrary: m s)
  case Nil
  then show ?case by simp
next
  case (Cons a as)
  note ih = Cons.IH
  show ?case
  proof (cases a)
    case (Mutate k g)
    with Cons.prems ih show ?thesis by (cases "m k") simp_all
  next
    case (CallOpenModal i)
    with Cons.prems obtain r1 s1 where p: "api_openModal A i s = Some (r1, s1)"
      by (auto split: option.splits)
    with assms have q: "api_openModal B i s = Some (r1, s1)" by (simp add: api_le_def)
    from CallOpenModal Cons.prems p q ih show ?thesis by (cases r1) simp_all
  next
    case (CallCloseModal i)
    with Cons.prems obtain r1 s1 where p: "api_closeModal A i s = Some (r1, s1)"
      by (auto split: option.splits)
    with assms have q: "api_closeModal B i s = Some (r1, s1)" by (simp add: api_le_def)
    from CallCloseModal Cons.prems p q ih show ?thesis by (cases r1) simp_all
  next
    case (CallSubscribe g)
    with Cons.prems obtain r1 s1 where p: "api_subscribe A g s = Some (r1, s1)"
      by (auto split: option.splits)
    with assms have q: "api_subscribe B g s = Some (r1, s1)" by (simp add: api_le_def)
    from CallSubscribe Cons.prems p q ih show ?thesis by (cases r1) simp_all
  qed (use Cons.prems ih in simp_all)
qed

lemma call_subscriber_mono:
  assumes "api_le A B" "call_subscriber A c f m s = Some x"
  shows "call_subscriber B c f m s = Some x"
proof -
  from assms(2) obtain y where e: "exec A (c f (view m s)) m s = Some y"
    by (auto simp: call_subscriber_def Let_def split: option.splits)
  from exec_mono[OF assms(1) e] e assms(2) show ?thesis
    by (simp add: call_subscriber_def Let_def)
qed

lemma forEach_from_mono:
  assumes "api_le A B"
  shows "forEach_from A c k i m s = Some x \<Longrightarrow> k \<le> k' \<Longrightarrow> forEach_from B c k' i m s = Some x"
proof (induction k arbitrary: k' i m s)
  case 0
  then show ?case by (cases k') (auto split: if_splits)
next
  case (Suc k)
  from Suc.prems(2) obtain j where k': "k' = Suc j" "k \<le> j" by (cases k') auto
  show ?case
  proof (cases "length (subscribers s) \<le> i")
    case True
    with Suc.prems(1) k' show ?thesis by simp
  next
    case False
    show ?thesis
    proof (cases "subscribers s ! i")
      case None
      with False Suc.prems(1) have "forEach_from A c k (Suc i) m s = Some x" by simp
      from Suc.IH[OF this k'(2)] False None k' show ?thesis by simp
    next
      case (Some f)
      with False Suc.prems(1) obtain r1 m1 s1 where
        c1: "call_subscriber A c f m s = Some (r1, m1, s1)"
        by (auto split: option.splits)
      note c2 = call_subscriber_mono[OF assms c1]
      show ?thesis
      proof (cases r1)
        case (Inl e)
        with False Some Suc.prems(1) c1 c2 k' show ?thesis by simp
      next
        case (Inr u)
        with False Some Suc.prems(1) c1 have "forEach_from A c k (Suc i) m1 s1 = Some x" by simp
        from Suc.IH[OF this k'(2)] False Some c2 Inr k' show ?thesis by simp
      qed
    qed
  qed
qed

lemma notify_in_mono:
  assumes "api_le A B" "n \<le> n'" "notify_in A c n s = Some x"
  shows "notify_in B c n' s = Some x"
  using forEach_from_mono[OF assms(1), of c "length (subscribers s) + n" 0 "modals s" s x
      "length (subscribers s) + n'"] assms(2,3)
  by (simp add: notify_in_def forEach_def)

lemma service_mono: "api_le (service c n) (service c (Suc n))"
proof (induction n)
  case 0
  then show ?case by (simp add: api_le_def)
next
  case (Suc n)
  have o: "openModal_in (service c (Suc n)) c (Suc n) i s = Some x"
    if "openModal_in (service c n) c n i s = Some x" for i s x
    using that notify_in_mono[OF Suc, of n "Suc n" c] by (simp add: openModal_in_def)
  have cl: "closeModal_in (service c (Suc n)) c (Suc n) i s = Some x"
    if "closeModal_in (service c n) c n i s = Some x" for i s x
    using that notify_in_mono[OF Suc, of n "Suc n" c]
    by (auto simp: closeModal_in_def split: option.splits)
  have su: "subscribe_in (service c (Suc n)) c g s = Some x"
    if "subscribe_in (service c n) c g s = Some x" for g s x
  proof -
    let ?s1 = "s\<lparr>subscribers := set_add g (subscribers s)\<rparr>"
    from that obtain y where c1: "call_subscriber (service c n) c g (modals s) ?s1 = Some y"
      by (auto simp: subscribe_in_def Let_def split: option.splits)
    from call_subscriber_mono[OF Suc c1] c1 that show ?thesis
      by (simp add: subscribe_in_def Let_def)
  qed
  from o cl su show ?case by (simp add: api_le_def)
qed

lemma more_bound_same_answer:
  "openModal n c i s = Some x \<Longrightarrow> openModal (Suc n) c i s = Some x"
  "closeModal n c i s = Some x \<Longrightarrow> closeModal (Suc n) c i s = Some x"
  "subscribe n c f s = Some y \<Longrightarrow> subscribe (Suc n) c f s = Some y"
proof -
  have le: "api_le (service c (Suc n)) (service c (Suc (Suc n)))" by (rule service_mono)
  {
    assume "openModal n c i s = Some x"
    then have "api_openModal (service c (Suc n)) i s = Some x" by (simp add: openModal_def)
    with le have "api_openModal (service c (Suc (Suc n))) i s = Some x"
      unfolding api_le_def by blast
    then show "openModal (Suc n) c i s = Some x" by (simp add: openModal_def)
  }
  {
    assume "closeModal n c i s = Some x"
    then have "api_closeModal (service c (Suc n)) i s = Some x" by (simp add: closeModal_def)
    with le have "api_closeModal (service c (Suc (Suc n))) i s = Some x"
      unfolding api_le_def by blast
    then show "closeModal (Suc n) c i s = Some x" by (simp add: closeModal_def)
  }
  {
    assume "subscribe n c f s = Some y"
    then have "api_subscribe (service c (Suc n)) f s = Some y" by (simp add: subscribe_def)
    with le have "api_subscribe (service c (Suc (Suc n))) f s = Some y"
      unfolding api_le_def by blast
    then show "subscribe (Suc n) c f s = Some y" by (simp add: subscribe_def)
  }
qed


section \<open>The plain service without subscribers\<close>

lemma notify_no_subscribers: "subscribers s = [] \<Longrightarrow> notify_plain c s = (Inr (), s)"
  by (simp add: notify_plain_def)

lemma openModal_alone:
  assumes "subscribers s = []"
  shows "subscribers (snd (openModal_plain c i s)) = []" "isModalOpen (snd (openModal_plain c i s)) i"
    "j \<noteq> i \<Longrightarrow> modals (snd (openModal_plain c i s)) j = modals s j"
  using assms by (simp_all add: openModal_plain_def notify_plain_def isModalOpen_def)

lemma closeModal_alone:
  assumes "subscribers s = []"
  shows "subscribers (snd (closeModal_plain c i s)) = []" "\<not> isModalOpen (snd (closeModal_plain c i s)) i"
    "j \<noteq> i \<Longrightarrow> modals (snd (closeModal_plain c i s)) j = modals s j"
    "modals s i = None \<Longrightarrow> snd (closeModal_plain c i s) = s"
  using assms by (simp_all add: closeModal_plain_def notify_plain_def isModalOpen_def split: option.splits)

lemma keydown_alone:
  assumes "subscribers s = []" "modals s i = None"
  shows "subscribers (snd (keydown_plain c k s)) = []" "modals (snd (keydown_plain c k s)) i = None"
proof -
  show "subscribers (snd (keydown_plain c k s)) = []"
    using assms(1) by (simp add: keydown_plain_def Let_def closeModal_alone)
  show "modals (snd (keydown_plain c k s)) i = None"
  proof (cases "k = ''Escape'' \<and> truthy (getLastOpenModal s)")
    case True
    then obtain j where j: "getLastOpenModal s = Some j" by (auto simp: truthy_def split: option.splits)
    from getLastOpenModal_is_open[OF j] assms(2) have "i \<noteq> j" by (auto simp: isModalOpen_def)
    with True j assms show ?thesis by (simp add: keydown_plain_def closeModal_alone)
  next
    case False
    with assms show ?thesis by (auto simp: keydown_plain_def Let_def)
  qed
qed

lemma run_single_id:
  "subscribers s = [] \<Longrightarrow> set cs \<subseteq> {Open i, Close i} \<Longrightarrow>
   isModalOpen (run_plain c cs s) i = (if cs = [] then isModalOpen s i else last cs = Open i)"
proof (induction cs arbitrary: s)
  case Nil
  then show ?case by simp
next
  case (Cons x cs)
  let ?s1 = "snd (step_plain c x s)"
  from Cons.prems(2) have x: "x = Open i \<or> x = Close i" and cs: "set cs \<subseteq> {Open i, Close i}" by auto
  from x Cons.prems(1) have s1: "subscribers ?s1 = []"
    by (auto simp: openModal_alone closeModal_alone)
  from x Cons.prems(1) have o1: "isModalOpen ?s1 i = (x = Open i)"
    by (auto simp: openModal_alone closeModal_alone)
  from Cons.IH[OF s1 cs] o1 show ?case by simp
qed

lemma run_never_opened:
  "subscribers s = [] \<Longrightarrow> modals s i = None \<Longrightarrow> Open i \<notin> set cs \<Longrightarrow> modals (run_plain c cs s) i = None"
proof (induction cs arbitrary: s)
  case Nil
  then show ?case by simp
next
  case (Cons x cs)
  let ?s1 = "snd (step_plain c x s)"
  from Cons.prems have x: "x \<noteq> Open i" and cs: "Open i \<notin> set cs" by auto
  have "subscribers ?s1 = [] \<and> modals ?s1 i = None"
  proof (cases x)
    case (Open j)
    with x Cons.prems show ?thesis by (simp add: openModal_alone)
  next
    case (Close j)
    with Cons.prems show ?thesis by (cases "j = i") (simp_all add: closeModal_alone)
  next
    case (Key k)
    with Cons.prems show ?thesis by (simp add: keydown_alone)
  qed
  with Cons.IH[OF _ _ cs] show ?case by simp
qed

section \<open>The plain methods, seen through the recorded invocations\<close>

lemma subscribe_shape:
  "subscribers (snd (subscribe_plain c f s)) = set_add f (subscribers s)
   \<and> modals (snd (subscribe_plain c f s)) = modals s
   \<and> openOrder (snd (subscribe_plain c f s)) = openOrder s
   \<and> new_calls s (snd (subscribe_plain c f s)) =
       [(f, view (modals s) s, completion_of (c f (view (modals s) s)))]
   \<and> fst (subscribe_plain c f s) =
       (case completion_of (c f (view (modals s) s)) of
          Inl e \<Rightarrow> Inl e | Inr u \<Rightarrow> Inr (Unsubscribe f))"
proof -
  let ?s1 = "s\<lparr>subscribers := set_add f (subscribers s)\<rparr>"
  obtain r m' s2 where c1: "call_subscriber_plain c f (modals s) ?s1 = (r, m', s2)"
    by (cases "call_subscriber_plain c f (modals s) ?s1") auto
  have v: "view (modals s) ?s1 = view (modals s) s" by (simp add: view_def)
  from call_subscriber_frame[OF c1] v have fr: "modals s2 = modals s"
    "subscribers s2 = set_add f (subscribers s)" "openOrder s2 = openOrder s"
    "calls s2 = calls s @ [(f, view (modals s) s, r)]" by simp_all
  from call_subscriber_result[of c f "modals s" ?s1] c1 v
  have r: "r = completion_of (c f (view (modals s) s))" by simp
  have sub: "subscribe_plain c f s = (case r of Inl e \<Rightarrow> (Inl e, s2) | Inr u \<Rightarrow> (Inr (Unsubscribe f), s2))"
    using c1 by (simp add: subscribe_plain_def Let_def split: sum.splits)
  then have s2: "snd (subscribe_plain c f s) = s2" by (cases r) simp_all
  have res: "fst (subscribe_plain c f s) = (case r of Inl e \<Rightarrow> Inl e | Inr u \<Rightarrow> Inr (Unsubscribe f))"
    using sub by (cases r) simp_all
  have "new_calls s s2 = [(f, view (modals s) s, r)]" using fr(4) by (simp add: new_calls_def)
  with fr r s2 res show ?thesis by simp
qed

lemma subscribe_plain_once:
  "f \<in> set (members (subscribers (snd (subscribe_plain c f s))))
   \<and> set (members (subscribers (snd (subscribe_plain c f s)))) = insert f (set (members (subscribers s)))
   \<and> new_calls s (snd (subscribe_plain c f s)) =
       [(f, view (modals s) s, completion_of (c f (view (modals s) s)))]
   \<and> invocations f s (snd (subscribe_plain c f s)) = 1
   \<and> isModalOpen s i = (case view (modals s) s i of None \<Rightarrow> False | Some m \<Rightarrow> isOpen m)
   \<and> fst (subscribe_plain c f s) =
       (case completion_of (c f (view (modals s) s)) of
          Inl e \<Rightarrow> Inl e | Inr u \<Rightarrow> Inr (Unsubscribe f))"
proof -
  have "set (members (set_add f (subscribers s))) = insert f (set (members (subscribers s)))"
    by (auto simp: members_set_add)
  moreover have "isModalOpen s i = (case view (modals s) s i of None \<Rightarrow> False | Some m \<Rightarrow> isOpen m)"
    by (simp add: isModalOpen_def view_def split: option.splits)
  ultimately show ?thesis
    using subscribe_shape[of c f s] by (simp add: invocations_def notified_def)
qed


section \<open>The plain key listener\<close>

lemma keydown_other_key: "k \<noteq> ''Escape'' \<Longrightarrow> keydown_plain c k s = (Inr (), s)"
  by (simp add: keydown_plain_def)

lemma keydown_nothing_open:
  "getLastOpenModal s = None \<Longrightarrow> keydown_plain c k s = (Inr (), s)"
  by (simp add: keydown_plain_def truthy_def)

lemma keydown_closes_last_open:
  "getLastOpenModal s = Some i \<Longrightarrow> i \<noteq> [] \<Longrightarrow> keydown_plain c ''Escape'' s = closeModal_plain c i s"
  by (simp add: keydown_plain_def truthy_def)

lemma getLastOpenModal_Some_iff:
  "getLastOpenModal s = Some i \<longleftrightarrow>
     (\<exists>before after. openOrder s = before @ i # after \<and> isModalOpen s i
        \<and> (\<forall>j \<in> set after. \<not> isModalOpen s j))"
proof
  assume "getLastOpenModal s = Some i"
  then have "List.find (isModalOpen s) (rev (openOrder s)) = Some i"
    by (simp add: getLastOpenModal_find)
  then obtain n where n: "n < length (openOrder s)" "isModalOpen s (rev (openOrder s) ! n)"
    "i = rev (openOrder s) ! n" "\<forall>j < n. \<not> isModalOpen s (rev (openOrder s) ! j)"
    by (auto simp: find_Some_iff)
  let ?r = "rev (openOrder s)"
  have r: "?r = take n ?r @ i # drop (Suc n) ?r" using n(1,3) by (simp add: id_take_nth_drop)
  then have "openOrder s = rev (drop (Suc n) ?r) @ i # rev (take n ?r)"
    by (metis rev_append rev_rev_ident rev.simps(2) append.assoc append_Cons append_Nil)
  moreover have "\<forall>j \<in> set (rev (take n ?r)). \<not> isModalOpen s j"
    using n(1,4) by (auto simp: in_set_conv_nth)
  ultimately show "\<exists>before after. openOrder s = before @ i # after \<and> isModalOpen s i
        \<and> (\<forall>j \<in> set after. \<not> isModalOpen s j)" using n(2,3) by blast
next
  assume "\<exists>before after. openOrder s = before @ i # after \<and> isModalOpen s i
        \<and> (\<forall>j \<in> set after. \<not> isModalOpen s j)"
  then obtain before after where o: "openOrder s = before @ i # after" "isModalOpen s i"
    "\<forall>j \<in> set after. \<not> isModalOpen s j" by blast
  have "List.find (isModalOpen s) (rev after @ i # rev before) = Some i"
    using o(2,3) by (induction after rule: rev_induct) auto
  with o(1) show "getLastOpenModal s = Some i" by (simp add: getLastOpenModal_find)
qed

section \<open>The representation invariant\<close>



lemma runtime_ok_unsubscribe: "runtime_ok s \<Longrightarrow> runtime_ok (call_unsubscribe h s)"
  by (cases h) (simp add: runtime_ok_def members_set_delete)



lemma fan_out_nonempty:
  assumes "fan_out c fs r new" "fs \<noteq> []"
  shows "new \<noteq> [] \<and> fst (hd new) = hd fs"
proof -
  have ne: "new \<noteq> []"
  proof
    assume "new = []"
    with assms(1) have "r = Inr ()" "r = Inr () \<longrightarrow> [] = fs" by (simp_all add: fan_out_def)
    with assms(2) show False by simp
  qed
  from assms(1) have "prefix (map fst new) fs" by (simp add: fan_out_def)
  with ne assms(2) have "fst (hd new) = hd fs"
    by (cases new; cases fs) (auto simp: prefix_def)
  with ne show ?thesis by simp
qed

lemma notify_first_view:
  assumes "notify_plain c s = (r, s')" "members (subscribers s) \<noteq> []"
  shows "fst (snd (hd (new_calls s s'))) = view (modals s) s"
proof -
  from assms(2) obtain f fs where fs: "members (subscribers s) = f # fs" by (cases "members (subscribers s)") auto
  with assms(1) have fe: "forEach_plain c (f # fs) (modals s) s = (r, s')" by (simp add: notify_plain_def)
  from forEach_first_view[OF fe] have v: "fst (snd (calls s' ! length (calls s))) = view (modals s) s" .
  from notify_shape(5,6)[OF assms(1)] fan_out_nonempty[of c "members (subscribers s)" r "new_calls s s'"] assms(2)
  have c: "calls s' = calls s @ new_calls s s'" and ne: "new_calls s s' \<noteq> []" by simp_all
  have "calls s' ! length (calls s) = hd (new_calls s s')"
    using ne by (subst c) (simp add: nth_append hd_conv_nth)
  with v show ?thesis by simp
qed

section \<open>Closing a closed panel, plainly\<close>

lemma view_cong:
  assumes "\<And>k a. m k = Some a \<Longrightarrow> objs s' a = objs s a"
  shows "view m s' = view m s"
proof
  fix k
  show "view m s' k = view m s k"
    by (cases "m k") (simp_all add: view_def assms)
qed

lemma isModalOpen_view:
  "isModalOpen s j = (case view (modals s) s j of None \<Rightarrow> False | Some m \<Rightarrow> isOpen m)"
  by (simp add: isModalOpen_def view_def split: option.splits)

lemma closeModal_closed_view:
  assumes "runtime_ok s" "modals s i = Some a" "\<not> isOpen (objs s a)"
  shows "view ((modals s)(i \<mapsto> fresh s))
      (s\<lparr>modals := (modals s)(i \<mapsto> fresh s),
         objs := (objs s)(fresh s := (objs s a)\<lparr>isOpen := False\<rparr>),
         fresh := Suc (fresh s)\<rparr>) = view (modals s) s"
proof (rule ext)
  fix k
  have same: "(objs s a)\<lparr>isOpen := False\<rparr> = objs s a" using assms(3) by simp
  have other: "b \<noteq> fresh s" if "modals s k = Some b" for b
    using assms(1) that by (fastforce simp: runtime_ok_def)
  let ?s0 = "s\<lparr>modals := (modals s)(i \<mapsto> fresh s),
         objs := (objs s)(fresh s := (objs s a)\<lparr>isOpen := False\<rparr>),
         fresh := Suc (fresh s)\<rparr>"
  show "view ((modals s)(i \<mapsto> fresh s)) ?s0 k = view (modals s) s k"
  proof (cases "k = i")
    case True
    with assms(2) same show ?thesis by (simp add: view_def)
  next
    case False
    show ?thesis
    proof (cases "modals s k")
      case None
      with False show ?thesis by (simp add: view_def)
    next
      case (Some b)
      with False other[OF Some] show ?thesis by (simp add: view_def)
    qed
  qed
qed

lemma closeModal_plain_closed:
  assumes "runtime_ok s" "modals s i = Some a" "\<not> isOpen (objs s a)"
  shows "fan_out c (members (subscribers s)) (fst (closeModal_plain c i s)) (new_calls s (snd (closeModal_plain c i s)))
    \<and> (members (subscribers s) \<noteq> [] \<longrightarrow>
          new_calls s (snd (closeModal_plain c i s)) \<noteq> []
          \<and> fst (hd (new_calls s (snd (closeModal_plain c i s)))) = hd (members (subscribers s))
          \<and> fst (snd (hd (new_calls s (snd (closeModal_plain c i s))))) = view (modals s) s)
    \<and> (\<forall>f. invocations f s (snd (closeModal_plain c i s)) \<le> 1)
    \<and> (fst (closeModal_plain c i s) = Inr () \<longrightarrow>
          notified s (snd (closeModal_plain c i s)) = members (subscribers s))
    \<and> openOrder (snd (closeModal_plain c i s)) = openOrder s
    \<and> subscribers (snd (closeModal_plain c i s)) = subscribers s
    \<and> (read_only c (members (subscribers s)) \<longrightarrow>
          view (modals (snd (closeModal_plain c i s))) (snd (closeModal_plain c i s)) = view (modals s) s
          \<and> (\<forall>j. isModalOpen (snd (closeModal_plain c i s)) j = isModalOpen s j))"
proof -
  obtain r s' where cl: "closeModal_plain c i s = (r, s')" by (cases "closeModal_plain c i s") auto
  let ?s0 = "s\<lparr>modals := (modals s)(i \<mapsto> fresh s),
               objs := (objs s)(fresh s := (objs s a)\<lparr>isOpen := False\<rparr>),
               fresh := Suc (fresh s)\<rparr>"
  let ?new = "new_calls s s'"
  from cl assms(2) have n: "notify_plain c ?s0 = (r, s')" by (simp add: closeModal_plain_def)
  have nc: "new_calls ?s0 s' = ?new" by (simp add: new_calls_def)
  have v0: "view (modals ?s0) ?s0 = view (modals s) s"
    using closeModal_closed_view[OF assms] by simp
  note sh = closeModal_shape[OF cl assms(2)]
  have fo: "fan_out c (members (subscribers s)) r ?new" by (rule sh(6))
  have first: "?new \<noteq> [] \<and> fst (hd ?new) = hd (members (subscribers s))
      \<and> fst (snd (hd ?new)) = view (modals s) s" if "members (subscribers s) \<noteq> []"
    using fan_out_nonempty[OF fo that] notify_first_view[OF n] that nc v0 by simp
  have once: "invocations f s s' \<le> 1" for f
    using fan_out_at_most_once[OF fo, of f] assms(1)
    by (simp add: invocations_def notified_def runtime_ok_def)
  have all: "notified s s' = members (subscribers s)" if "r = Inr ()"
    using fo that by (simp add: fan_out_def notified_def)
  have same: "view (modals s') s' = view (modals s) s \<and> (\<forall>j. isModalOpen s' j = isModalOpen s j)"
    if ro: "read_only c (members (subscribers s))"
  proof -
    have "objs s' b = objs ?s0 b" if "modals ?s0 k = Some b" for k b
    proof -
      from that assms(1) have "b < fresh ?s0"
        by (auto simp: runtime_ok_def less_Suc_eq split: if_splits)
      with notify_read_only[OF n, of b] ro show ?thesis by simp
    qed
    then have "view (modals ?s0) s' = view (modals ?s0) ?s0" by (rule view_cong)
    with v0 sh(1) have "view (modals s') s' = view (modals s) s" by simp
    then show ?thesis by (simp add: isModalOpen_view)
  qed
  from fo first once all same sh(2,3) cl show ?thesis by simp
qed

section \<open>Opening a panel, plainly\<close>

lemma openModal_view:
  assumes "runtime_ok s"
  shows "view ((modals s)(i \<mapsto> fresh s))
      (s\<lparr>modals := (modals s)(i \<mapsto> fresh s),
         objs := (objs s)(fresh s := \<lparr>id_ms = i, isOpen = True\<rparr>),
         fresh := Suc (fresh s),
         openOrder := filter (\<lambda>modalId. modalId \<noteq> i) (openOrder s) @ [i]\<rparr>)
     = (view (modals s) s)(i \<mapsto> \<lparr>id_ms = i, isOpen = True\<rparr>)"
proof (rule ext)
  fix k
  have other: "b \<noteq> fresh s" if "modals s k = Some b" for b
    using assms that by (fastforce simp: runtime_ok_def)
  let ?s0 = "s\<lparr>modals := (modals s)(i \<mapsto> fresh s),
         objs := (objs s)(fresh s := \<lparr>id_ms = i, isOpen = True\<rparr>),
         fresh := Suc (fresh s),
         openOrder := filter (\<lambda>modalId. modalId \<noteq> i) (openOrder s) @ [i]\<rparr>"
  show "view ((modals s)(i \<mapsto> fresh s)) ?s0 k
      = ((view (modals s) s)(i \<mapsto> \<lparr>id_ms = i, isOpen = True\<rparr>)) k"
  proof (cases "k = i")
    case True
    then show ?thesis by (simp add: view_def)
  next
    case False
    show ?thesis
    proof (cases "modals s k")
      case None
      with False show ?thesis by (simp add: view_def)
    next
      case (Some b)
      with False other[OF Some] show ?thesis by (simp add: view_def)
    qed
  qed
qed

lemma openModal_plain_effect:
  assumes "runtime_ok s"
  shows "openOrder (snd (openModal_plain c i s)) = filter (\<lambda>j. j \<noteq> i) (openOrder s) @ [i]
    \<and> length (filter (\<lambda>j. j = i) (openOrder (snd (openModal_plain c i s)))) = 1
    \<and> last (openOrder (snd (openModal_plain c i s))) = i
    \<and> subscribers (snd (openModal_plain c i s)) = subscribers s
    \<and> fan_out c (members (subscribers s)) (fst (openModal_plain c i s)) (new_calls s (snd (openModal_plain c i s)))
    \<and> (members (subscribers s) \<noteq> [] \<longrightarrow>
          new_calls s (snd (openModal_plain c i s)) \<noteq> []
          \<and> fst (hd (new_calls s (snd (openModal_plain c i s)))) = hd (members (subscribers s))
          \<and> fst (snd (hd (new_calls s (snd (openModal_plain c i s)))))
              = (view (modals s) s)(i \<mapsto> \<lparr>id_ms = i, isOpen = True\<rparr>))
    \<and> (\<forall>f. invocations f s (snd (openModal_plain c i s)) \<le> 1)
    \<and> (fst (openModal_plain c i s) = Inr () \<longrightarrow>
          notified s (snd (openModal_plain c i s)) = members (subscribers s)
          \<and> (\<forall>f \<in> set (members (subscribers s)). invocations f s (snd (openModal_plain c i s)) = 1))
    \<and> (read_only c (members (subscribers s)) \<longrightarrow>
          view (modals (snd (openModal_plain c i s))) (snd (openModal_plain c i s))
            = (view (modals s) s)(i \<mapsto> \<lparr>id_ms = i, isOpen = True\<rparr>)
          \<and> isModalOpen (snd (openModal_plain c i s)) i)"
proof -
  obtain r s' where op: "openModal_plain c i s = (r, s')" by (cases "openModal_plain c i s") auto
  let ?s0 = "s\<lparr>modals := (modals s)(i \<mapsto> fresh s),
         objs := (objs s)(fresh s := \<lparr>id_ms = i, isOpen = True\<rparr>),
         fresh := Suc (fresh s),
         openOrder := filter (\<lambda>modalId. modalId \<noteq> i) (openOrder s) @ [i]\<rparr>"
  let ?new = "new_calls s s'"
  let ?v = "(view (modals s) s)(i \<mapsto> \<lparr>id_ms = i, isOpen = True\<rparr>)"
  from op have n: "notify_plain c ?s0 = (r, s')" by (simp add: openModal_plain_def)
  have nc: "new_calls ?s0 s' = ?new" by (simp add: new_calls_def)
  have v0: "view (modals ?s0) ?s0 = ?v" using openModal_view[OF assms] by simp
  note sh = openModal_shape[OF op]
  have fo: "fan_out c (members (subscribers s)) r ?new" by (rule sh(6))
  have ord: "length (filter (\<lambda>j. j = i) (openOrder s')) = 1 \<and> last (openOrder s') = i"
  proof -
    have "filter (\<lambda>j. j = i) (filter (\<lambda>j. j \<noteq> i) (openOrder s)) = []"
      by (induction "openOrder s") (auto simp: filter_empty_conv)
    with sh(3) show ?thesis by simp
  qed
  have first: "?new \<noteq> [] \<and> fst (hd ?new) = hd (members (subscribers s)) \<and> fst (snd (hd ?new)) = ?v"
    if "members (subscribers s) \<noteq> []"
    using fan_out_nonempty[OF fo that] notify_first_view[OF n] that nc v0 by simp
  have once: "invocations f s s' \<le> 1" for f
    using fan_out_at_most_once[OF fo, of f] assms
    by (simp add: invocations_def notified_def runtime_ok_def)
  have all: "notified s s' = members (subscribers s) \<and> (\<forall>f \<in> set (members (subscribers s)). invocations f s s' = 1)"
    if "r = Inr ()"
  proof -
    from fo that have fo': "fan_out c (members (subscribers s)) (Inr ()) ?new" by simp
    then have "notified s s' = members (subscribers s)" by (simp add: fan_out_def notified_def)
    moreover have "invocations f s s' = 1" if "f \<in> set (members (subscribers s))" for f
      using fan_out_exactly_once[OF fo' _ that] assms
      by (simp add: invocations_def notified_def runtime_ok_def)
    ultimately show ?thesis by blast
  qed
  have same: "view (modals s') s' = ?v \<and> isModalOpen s' i" if ro: "read_only c (members (subscribers s))"
  proof -
    have "objs s' b = objs ?s0 b" if "modals ?s0 k = Some b" for k b
    proof -
      from that assms have "b < fresh ?s0"
        by (auto simp: runtime_ok_def less_Suc_eq split: if_splits)
      with notify_read_only[OF n, of b] ro show ?thesis by simp
    qed
    then have "view (modals ?s0) s' = view (modals ?s0) ?s0" by (rule view_cong)
    with v0 sh(1) have "view (modals s') s' = ?v" by simp
    then show ?thesis by (simp add: isModalOpen_view)
  qed
  from fo ord first once all same sh(2,3) op show ?thesis by simp
qed

section \<open>At most one invocation per call\<close>


lemma openModal_exactly_once:
  assumes "runtime_ok s" "f \<in> set (members (subscribers s))" "fst (openModal_plain c i s) = Inr ()"
  shows "invocations f s (snd (openModal_plain c i s)) = 1"
proof -
  obtain r s' where op: "openModal_plain c i s = (r, s')" by (cases "openModal_plain c i s") auto
  with assms(3) have "r = Inr ()" by simp
  with openModal_shape(6)[OF op] have "fan_out c (members (subscribers s)) (Inr ()) (new_calls s s')" by simp
  from fan_out_exactly_once[OF this _ assms(2)] assms(1) op show ?thesis
    by (simp add: invocations_def notified_def runtime_ok_def)
qed

section \<open>Writes to the map alone do not reach the service\<close>

lemma notify_keeps_view:
  assumes "runtime_ok s" "read_only c (members (subscribers s))"
  shows "view (modals (snd (notify_plain c s))) (snd (notify_plain c s)) = view (modals s) s"
proof -
  obtain r s' where n: "notify_plain c s = (r, s')" by (cases "notify_plain c s") auto
  have "objs s' b = objs s b" if "modals s k = Some b" for k b
  proof -
    from that assms(1) have "b < fresh s" by (auto simp: runtime_ok_def)
    from notify_read_only[OF n assms(2) this] show ?thesis .
  qed
  then have "view (modals s) s' = view (modals s) s" by (rule view_cong)
  with notify_shape(1)[OF n] n show ?thesis by simp
qed

lemma subscribe_keeps_view:
  assumes "runtime_ok s" "read_only c [f]"
  shows "view (modals (snd (subscribe_plain c f s))) (snd (subscribe_plain c f s)) = view (modals s) s"
proof -
  let ?s1 = "s\<lparr>subscribers := set_add f (subscribers s)\<rparr>"
  obtain r m' s2 where c1: "call_subscriber_plain c f (modals s) ?s1 = (r, m', s2)"
    by (cases "call_subscriber_plain c f (modals s) ?s1") auto
  have s2: "snd (subscribe_plain c f s) = s2"
    using c1 by (cases r) (simp_all add: subscribe_plain_def Let_def)
  have "objs s2 b = objs s b" if "modals s k = Some b" for k b
  proof -
    from that assms(1) have "b < fresh ?s1" by (auto simp: runtime_ok_def)
    from call_subscriber_read_only[OF assms(2) c1 this] show ?thesis by simp
  qed
  then have "view (modals s) s2 = view (modals s) s" by (rule view_cong)
  with call_subscriber_frame(1)[OF c1] s2 show ?thesis by simp
qed


section \<open>The state of one identifier\<close>

lemma no_call_back_nobody: "subscribers s = [] \<Longrightarrow> no_call_back c (members (subscribers s))"
  by (simp add: no_call_back_def)

text \<open>
  C4. Starting from the freshly constructed service, any finite sequence of
  \<^verbatim>\<open>openModal(id)\<close> and \<^verbatim>\<open>closeModal(id)\<close> calls on one identifier runs to its end, and
  afterwards \<^verbatim>\<open>isModalOpen(id)\<close> is true exactly when the sequence is not empty and its
  last call is \<^verbatim>\<open>openModal(id)\<close>. Moreover, after any sequence of calls (on any
  identifiers, key presses included) in which \<^verbatim>\<open>id\<close> was never passed to
  \<^verbatim>\<open>openModal\<close>, \<^verbatim>\<open>isModalOpen(id)\<close> is false. The query itself is a function of the
  state to a Boolean: it returns no new state.
\<close>

theorem isModalOpen_last_call:
  "(set cs \<subseteq> {Open i, Close i} \<longrightarrow>
      (\<exists>t. run n c cs ModalMediator = Some t
         \<and> isModalOpen t i = (cs \<noteq> [] \<and> last cs = Open i)))
   \<and> (Open i \<notin> set ds \<longrightarrow>
      (\<exists>t. run n c ds ModalMediator = Some t \<and> \<not> isModalOpen t i))"
proof -
  have init: "subscribers ModalMediator = []" "modals ModalMediator i = None"
    "\<not> isModalOpen ModalMediator i"
    by (simp_all add: ModalMediator_def isModalOpen_def)
  have same: "run n c xs ModalMediator = Some (run_plain c xs ModalMediator)" for xs
    by (rule run_plain_eq[OF no_call_back_nobody[OF init(1)]])
  have "isModalOpen (run_plain c cs ModalMediator) i = (cs \<noteq> [] \<and> last cs = Open i)"
    if "set cs \<subseteq> {Open i, Close i}"
    using run_single_id[OF init(1) that, of c] init(3) by simp
  moreover have "\<not> isModalOpen (run_plain c ds ModalMediator) i" if "Open i \<notin> set ds"
    using run_never_opened[OF init(1,2) that, of c] by (simp add: isModalOpen_def)
  ultimately show ?thesis using same by blast
qed

theorem isModalOpen_last_call_witness:
  "set [Open ''a'', Close ''a'', Open ''a''] \<subseteq> {Open ''a'', Close ''a''}
   \<and> (\<exists>t. run 0 quiet [Open ''a'', Close ''a'', Open ''a''] ModalMediator = Some t
         \<and> isModalOpen t ''a'')
   \<and> Open ''a'' \<notin> set [Open ''b'', Close ''a'', Key ''Escape'']
   \<and> (\<exists>t. run 0 quiet [Open ''b'', Close ''a'', Key ''Escape''] ModalMediator = Some t
         \<and> \<not> isModalOpen t ''a'')"
  using isModalOpen_last_call [of "[Open ''a'', Close ''a'', Open ''a'']" "''a''" 0 quiet
      "[Open ''b'', Close ''a'', Key ''Escape'']"]
  by simp

text \<open>
  C6. For an identifier with no entry in \<^verbatim>\<open>modals\<close>, \<^verbatim>\<open>closeModal\<close> returns
  normally and leaves the whole state as it was: no entry is created, neither the map
  nor \<^verbatim>\<open>openOrder\<close> nor the subscriber set changes, and no subscriber is invoked.
\<close>

theorem closeModal_unknown:
  assumes "modals s i = None"
  shows "closeModal n c i s = Some (Inr (), s)
    \<and> (\<forall>r s'. closeModal n c i s = Some (r, s') \<longrightarrow>
          modals s' i = None \<and> modals s' = modals s \<and> openOrder s' = openOrder s
          \<and> subscribers s' = subscribers s \<and> notified s s' = [])"
  using assms by (simp add: closeModal_def closeModal_in_def notified_def new_calls_def)

theorem closeModal_unknown_witness:
  "modals (ModalMediator\<lparr>subscribers := [Some 4]\<rparr>) ''nope'' = None
   \<and> closeModal 0 quiet ''nope'' (ModalMediator\<lparr>subscribers := [Some 4]\<rparr>)
       = Some (Inr (), ModalMediator\<lparr>subscribers := [Some 4]\<rparr>)
   \<and> notified (ModalMediator\<lparr>subscribers := [Some 4]\<rparr>) (ModalMediator\<lparr>subscribers := [Some 4]\<rparr>) = []"
proof -
  have m: "modals (ModalMediator\<lparr>subscribers := [Some 4]\<rparr>) ''nope'' = None"
    by (simp add: ModalMediator_def)
  from closeModal_unknown [OF m, of 0 quiet] m show ?thesis by blast
qed

section \<open>The key listener\<close>

text \<open>
  With identifiers that are not the empty string, the listener does what the scan
  promises. Three panels opened in the order \<open>a\<close>, \<open>b\<close>, \<open>c\<close> are closed by three key
  presses in the order \<open>c\<close>, \<open>b\<close>, \<open>a\<close>, and a fourth press leaves the state as it is.
\<close>

lemma keydown_eq_closeModal:
  "getLastOpenModal s = Some i \<Longrightarrow> i \<noteq> [] \<Longrightarrow> keydown n c ''Escape'' s = closeModal n c i s"
  by (simp add: keydown_def truthy_def)

lemma keydown_idle:
  "k \<noteq> ''Escape'' \<or> getLastOpenModal s = None \<Longrightarrow> keydown n c k s = Some (Inr (), s)"
  by (auto simp: keydown_def truthy_def)

lemma escape_three_panels:
  "map_option (\<lambda>t. map (isModalOpen t) [''a'', ''b'', ''c''])
     (run 0 quiet [Open ''a'', Open ''b'', Open ''c'', Key ''Escape''] ModalMediator)
     = Some [True, True, False]
   \<and> map_option (\<lambda>t. map (isModalOpen t) [''a'', ''b'', ''c''])
     (run 0 quiet [Open ''a'', Open ''b'', Open ''c'', Key ''Escape'', Key ''Escape''] ModalMediator)
     = Some [True, False, False]
   \<and> map_option (\<lambda>t. map (isModalOpen t) [''a'', ''b'', ''c''])
     (run 0 quiet [Open ''a'', Open ''b'', Open ''c'', Key ''Escape'', Key ''Escape'', Key ''Escape'']
        ModalMediator)
     = Some [False, False, False]
   \<and> run 0 quiet [Open ''a'', Open ''b'', Open ''c'', Key ''Escape'', Key ''Escape'', Key ''Escape'',
        Key ''Escape''] ModalMediator
     = run 0 quiet [Open ''a'', Open ''b'', Open ''c'', Key ''Escape'', Key ''Escape'', Key ''Escape'']
        ModalMediator
   \<and> map_option (\<lambda>t. map (isModalOpen t) [''a'', ''b'', ''c''])
     (run 0 quiet [Open ''a'', Open ''b'', Open ''c'', Open ''a'', Key ''Escape''] ModalMediator)
     = Some [False, True, True]"
  by (simp add: ModalMediator_def openModal_def openModal_in_def closeModal_def closeModal_in_def
      keydown_def notify_in_def forEach_def getLastOpenModal_def isModalOpen_def truthy_def Let_def)

text \<open>
  C1. On a key event with key \<^verbatim>\<open>Escape\<close> the listener should close the first
  identifier, scanning \<^verbatim>\<open>openOrder\<close> from the tail, whose entry is open. The listener
  tests the identifier it found with \<^verbatim>\<open>if (lastOpenModal)\<close>, and the empty string is
  falsy: after \<^verbatim>\<open>openModal('a')\<close> and \<^verbatim>\<open>openModal('')\<close> the scan finds the empty
  identifier, and the key event closes nothing; both panels stay open and the state is
  the one before the event.
\<close>

theorem escape_ignores_empty_identifier:
  "(case run 0 quiet [Open ''a'', Open ''''] ModalMediator of
      None \<Rightarrow> False
    | Some t \<Rightarrow>
        getLastOpenModal t = Some ''''
        \<and> keydown 0 quiet ''Escape'' t = Some (Inr (), t)
        \<and> run 0 quiet [Open ''a'', Open '''', Key ''Escape''] ModalMediator = Some t
        \<and> isModalOpen t '''' \<and> isModalOpen t ''a'')"
  by (simp add: ModalMediator_def openModal_def openModal_in_def closeModal_def closeModal_in_def
      keydown_def notify_in_def forEach_def getLastOpenModal_def isModalOpen_def truthy_def Let_def)

section \<open>What a subscriber can do to the objects it is handed\<close>

text \<open>
  C3. The map handed to a subscriber should be a copy deep enough that nothing the
  subscriber does to it, or to the \<^verbatim>\<open>ModalState\<close> values in it, changes what
  \<^verbatim>\<open>isModalOpen\<close> or later copies show. \<^verbatim>\<open>new Map(this.modals)\<close> copies the
  references only. With panel \<open>a\<close> open, subscribing a callback that sets
  \<^verbatim>\<open>isOpen = false\<close> on the entry it receives makes \<^verbatim>\<open>isModalOpen('a')\<close> false, and
  the next subscriber is handed a closed entry; with that callback registered,
  \<^verbatim>\<open>openModal('a')\<close> returns normally and leaves \<open>a\<close> closed.
\<close>

theorem snapshot_shares_modal_objects:
  "(case openModal 0 meddler ''a'' ModalMediator of
      None \<Rightarrow> False
    | Some (r1, s1) \<Rightarrow>
        isModalOpen s1 ''a''
        \<and> (case subscribe 0 meddler 0 s1 of
              None \<Rightarrow> False
            | Some (r2, s2) \<Rightarrow>
                r2 = Inr (Unsubscribe 0) \<and> \<not> isModalOpen s2 ''a''
                \<and> (case subscribe 0 meddler 1 s2 of
                      None \<Rightarrow> False
                    | Some (r3, s3) \<Rightarrow>
                        map (\<lambda>x. map_option isOpen (fst (snd x) ''a'')) (calls s3)
                          = [Some True, Some False])))
   \<and> (case subscribe 0 meddler 0 ModalMediator of
        None \<Rightarrow> False
      | Some (r1, s1) \<Rightarrow>
          (case openModal 0 meddler ''a'' s1 of
             None \<Rightarrow> False
           | Some (r2, s2) \<Rightarrow> r2 = Inr () \<and> \<not> isModalOpen s2 ''a''))"
  by (simp add: ModalMediator_def openModal_def openModal_in_def notify_in_def forEach_def
      isModalOpen_def Let_def subscribe_def subscribe_in_def call_subscriber_def set_add_def
      view_def meddler_def)


section \<open>Subscribing and unsubscribing\<close>

lemma subscribes_none_empty: "subscribes_none c {}"
  by (simp add: subscribes_none_def)

lemma subscribe_handle: "subscribe n c f s = Some (Inr h, s') \<Longrightarrow> h = Unsubscribe f"
  by (auto simp: subscribe_def subscribe_in_def Let_def split: option.splits sum.splits)

lemma subscribe_last_call:
  assumes "subscribe n c f s = Some (r, s')"
  shows "calls s' = calls s @ new_calls s s' \<and> new_calls s s' \<noteq> []
    \<and> last (new_calls s s') = (f, view (modals s) s, returned r)"
proof -
  let ?s1 = "s\<lparr>subscribers := set_add f (subscribers s)\<rparr>"
  let ?v = "view (modals s) s"
  have v: "view (modals s) ?s1 = ?v" by (simp add: view_def)
  from assms obtain q m' where c1: "call_subscriber (service c n) c f (modals s) ?s1 = Some (q, m', s')"
    and q: "returned r = q"
    by (auto simp: subscribe_def subscribe_in_def Let_def returned_def split: option.splits sum.splits)
  from c1 v obtain s0 where e: "exec (service c n) (c f ?v) (modals s) ?s1 = Some (q, m', s0)"
    and s': "s' = s0\<lparr>calls := calls s0 @ [(f, ?v, q)]\<rparr>"
    by (auto simp: call_subscriber_def Let_def split: option.splits)
  from exec_follows[OF service_follows[OF subscribes_none_empty] _ e]
  obtain n0 where "calls s0 = calls s @ n0" unfolding follows_def by auto
  with s' have c: "calls s' = calls s @ (n0 @ [(f, ?v, q)])" by simp
  then have "new_calls s s' = n0 @ [(f, ?v, q)]" by (simp add: new_calls_def)
  with c q show ?thesis by simp
qed



text \<open>
  C7, as the code has it. \<^verbatim>\<open>subscribe(f)\<close> adds \<open>f\<close> to the set and then invokes
  \<open>f\<close> on a copy of \<^verbatim>\<open>modals\<close> as it is at that moment (the copy agrees with
  \<^verbatim>\<open>isModalOpen\<close> on every identifier); that invocation is part of \<^verbatim>\<open>subscribe\<close>, the
  last one recorded before it completes, \<^verbatim>\<open>subscribe\<close> completes as it does, and the
  function returned is the one that deletes \<open>f\<close>. When the body of \<open>f\<close> does not call back
  into the service, \<^verbatim>\<open>subscribe(f)\<close> finishes, this is the only invocation, of \<open>f\<close> and
  of anybody, and \<open>f\<close> is in the set afterwards, next to those that were.
\<close>

theorem subscribe_invokes_once:
  "(\<forall>r s'. subscribe n c f s = Some (r, s') \<longrightarrow>
      calls s' = calls s @ new_calls s s' \<and> new_calls s s' \<noteq> []
      \<and> last (new_calls s s') = (f, view (modals s) s, returned r)
      \<and> (\<forall>h. r = Inr h \<longrightarrow> h = Unsubscribe f))
   \<and> (no_call_back c [f] \<longrightarrow>
        (\<exists>r s'. subscribe n c f s = Some (r, s')
           \<and> f \<in> set (members (subscribers s'))
           \<and> set (members (subscribers s')) = insert f (set (members (subscribers s)))
           \<and> new_calls s s' = [(f, view (modals s) s, completion_of (c f (view (modals s) s)))]
           \<and> invocations f s s' = 1
           \<and> r = (case completion_of (c f (view (modals s) s)) of
                    Inl e \<Rightarrow> Inl e | Inr u \<Rightarrow> Inr (Unsubscribe f))))
   \<and> isModalOpen s i = (case view (modals s) s i of None \<Rightarrow> False | Some m \<Rightarrow> isOpen m)"
proof -
  have a: "calls s' = calls s @ new_calls s s' \<and> new_calls s s' \<noteq> []
      \<and> last (new_calls s s') = (f, view (modals s) s, returned r)
      \<and> (\<forall>h. r = Inr h \<longrightarrow> h = Unsubscribe f)"
    if "subscribe n c f s = Some (r, s')" for r s'
    using subscribe_last_call[OF that] subscribe_handle[of n c f s _ s'] that by auto
  have b: "\<exists>r s'. subscribe n c f s = Some (r, s')
           \<and> f \<in> set (members (subscribers s'))
           \<and> set (members (subscribers s')) = insert f (set (members (subscribers s)))
           \<and> new_calls s s' = [(f, view (modals s) s, completion_of (c f (view (modals s) s)))]
           \<and> invocations f s s' = 1
           \<and> r = (case completion_of (c f (view (modals s) s)) of
                    Inl e \<Rightarrow> Inl e | Inr u \<Rightarrow> Inr (Unsubscribe f))"
    if "no_call_back c [f]"
  proof -
    obtain r s' where p: "subscribe_plain c f s = (r, s')" by (cases "subscribe_plain c f s") auto
    with subscribe_plain_eq[OF that, of n s] have "subscribe n c f s = Some (r, s')" by simp
    with subscribe_plain_once[of f c s i] p show ?thesis by auto
  qed
  from a b isModalOpen_view[of s i] show ?thesis by blast
qed

theorem subscribe_invokes_once_witness:
  "no_call_back quiet [7]
   \<and> (\<exists>r s'. subscribe 0 quiet 7 ModalMediator = Some (r, s')
         \<and> new_calls ModalMediator s' = [(7, Map.empty, Inr ())]
         \<and> members (subscribers s') = [7]
         \<and> r = Inr (Unsubscribe 7))"
proof -
  have nc: "no_call_back quiet [7]" by (simp add: no_call_back_def quiet_def)
  have e: "subscribe 0 quiet 7 ModalMediator
     = Some (Inr (Unsubscribe 7), ModalMediator\<lparr>subscribers := [Some 7], calls := [(7, Map.empty, Inr ())]\<rparr>)"
    by (simp add: subscribe_def subscribe_in_def call_subscriber_def quiet_def Let_def set_add_def
        ModalMediator_def view_def)
  from subscribe_invokes_once [of 0 quiet 7 ModalMediator "''a''"] nc e
  show ?thesis by (simp add: new_calls_def ModalMediator_def)
qed

text \<open>
  C7 as stated fails for a subscriber that calls back. \<^verbatim>\<open>subscribe\<close> adds the
  subscriber to the set before it invokes it, so a subscriber that runs
  \<^verbatim>\<open>if (!modals.has('a')) ModalMediator.openModal('a')\<close> is invoked a second time, from
  the loop of that \<^verbatim>\<open>openModal\<close>, before \<^verbatim>\<open>subscribe\<close> returns: two invocations, and
  the one that completes first was handed a map with an entry for \<open>a\<close>, which the state
  at subscription time did not have.
\<close>

theorem subscribe_once_counterexample:
  "(case subscribe (Suc 0) eager 0 ModalMediator of
      None \<Rightarrow> False
    | Some (r, s') \<Rightarrow>
        r = Inr (Unsubscribe 0)
        \<and> invocations 0 ModalMediator s' = 2
        \<and> map (\<lambda>x. fst (snd x) ''a'' = None) (new_calls ModalMediator s') = [False, True])"
  by (simp add: subscribe_def subscribe_in_def call_subscriber_def eager_def Let_def set_add_def
      ModalMediator_def view_def openModal_in_def notify_in_def forEach_def invocations_def
      notified_def new_calls_def)


section \<open>Exceptions of subscribers\<close>









lemma thrown_is_result:
  assumes "follows F s r s'" "(g, v, Inl e) \<in> set (new_calls s s')"
  shows "r = Inl e"
proof -
  from assms(1) obtain new where n: "calls s' = calls s @ new"
    "\<forall>x \<in> set new. \<forall>e. snd (snd x) = Inl e \<longrightarrow> r = Inl e" unfolding follows_def by auto
  then have "new_calls s s' = new" by (simp add: new_calls_def)
  with assms(2) n(2) show ?thesis by fastforce
qed







section \<open>Who is invoked by a call that notifies\<close>

lemma forEach_from_invokes_first:
  assumes "api_follows {} nested"
  shows "forEach_from nested c k i m s = Some (r, s') \<Longrightarrow>
    members (drop i (subscribers s)) = g # gs \<Longrightarrow> g \<in> set (notified s s')"
proof (induction k arbitrary: i)
  case 0
  then show ?case by (auto split: if_splits)
next
  case (Suc k)
  from Suc.prems(2) have i: "i < length (subscribers s)" by (cases "i < length (subscribers s)") auto
  then have dr: "drop i (subscribers s) = subscribers s ! i # drop (Suc i) (subscribers s)"
    by (simp add: Cons_nth_drop_Suc)
  show ?case
  proof (cases "subscribers s ! i")
    case None
    with dr Suc.prems(2) have "members (drop (Suc i) (subscribers s)) = g # gs" by simp
    moreover from Suc.prems(1) i None have "forEach_from nested c k (Suc i) m s = Some (r, s')" by simp
    ultimately show ?thesis by (rule Suc.IH[rotated])
  next
    case (Some g')
    with dr Suc.prems(2) have g: "g' = g" by simp
    from Suc.prems(1) i Some g obtain r1 m1 s1 where
      c1: "call_subscriber nested c g m s = Some (r1, m1, s1)"
      and rest: "(\<exists>e. r1 = Inl e \<and> s' = s1) \<or> forEach_from nested c k (Suc i) m1 s1 = Some (r, s')"
      by (auto split: option.splits sum.splits)
    from c1 obtain s0 where e: "exec nested (c g (view m s)) m s = Some (r1, m1, s0)"
      and s1: "s1 = s0\<lparr>calls := calls s0 @ [(g, view m s, r1)]\<rparr>"
      by (auto simp: call_subscriber_def Let_def split: option.splits)
    from exec_follows[OF assms _ e] obtain n0 where n0: "calls s0 = calls s @ n0"
      unfolding follows_def by auto
    from rest show ?thesis
    proof
      assume "\<exists>e. r1 = Inl e \<and> s' = s1"
      with s1 n0 show ?thesis by (auto simp: notified_def new_calls_def)
    next
      assume "forEach_from nested c k (Suc i) m1 s1 = Some (r, s')"
      from forEach_from_follows[OF assms subscribes_none_empty this]
      obtain n2 where "calls s' = calls s1 @ n2" unfolding follows_def by auto
      with s1 n0 show ?thesis by (auto simp: notified_def new_calls_def)
    qed
  qed
qed

lemma notify_in_invokes_first:
  assumes "notify_in (service c n) c n s = Some (r, s')" "members (subscribers s) \<noteq> []"
  shows "hd (members (subscribers s)) \<in> set (notified s s')"
proof -
  from assms(2) obtain g gs where g: "members (subscribers s) = g # gs"
    by (cases "members (subscribers s)") auto
  from assms(1) have "forEach_from (service c n) c (length (subscribers s) + n) 0 (modals s) s
      = Some (r, s')" by (simp add: notify_in_def forEach_def)
  from forEach_from_invokes_first[OF service_follows[OF subscribes_none_empty] this] g
  show ?thesis by simp
qed

lemma openModal_invokes_first:
  assumes "openModal n c i s = Some (r, s')" "members (subscribers s) \<noteq> []"
  shows "hd (members (subscribers s)) \<in> set (notified s s')"
proof -
  let ?s0 = "s\<lparr>modals := (modals s)(i \<mapsto> fresh s),
          objs := (objs s)(fresh s := \<lparr>id_ms = i, isOpen = True\<rparr>),
          fresh := Suc (fresh s),
          openOrder := filter (\<lambda>modalId. modalId \<noteq> i) (openOrder s) @ [i]\<rparr>"
  from assms(1) have "notify_in (service c n) c n ?s0 = Some (r, s')"
    by (simp add: openModal_def openModal_in_def)
  from notify_in_invokes_first[OF this] assms(2) show ?thesis by (simp add: notified_def new_calls_def)
qed

lemma closeModal_invokes_first:
  assumes "closeModal n c i s = Some (r, s')" "members (subscribers s) \<noteq> []" "modals s i = Some a"
  shows "hd (members (subscribers s)) \<in> set (notified s s')"
proof -
  let ?s0 = "s\<lparr>modals := (modals s)(i \<mapsto> fresh s),
               objs := (objs s)(fresh s := (objs s a)\<lparr>isOpen := False\<rparr>),
               fresh := Suc (fresh s)\<rparr>"
  from assms(1,3) have "notify_in (service c n) c n ?s0 = Some (r, s')"
    by (simp add: closeModal_def closeModal_in_def)
  from notify_in_invokes_first[OF this] assms(2) show ?thesis by (simp add: notified_def new_calls_def)
qed

section \<open>Closing a panel that is already closed\<close>

text \<open>
  C2, as the code has it. Let the entry of \<open>i\<close> exist and be closed. Then
  \<^verbatim>\<open>closeModal(i)\<close> is not silent: whatever the subscribers do, if there is a
  registered subscriber and the call finishes, the first registered one has been invoked.
  When the registered subscribers do not call back into the service, the call finishes
  and has run the loop over them: they are invoked in insertion order, each at most once,
  up to and including the first that throws, and all of them when the call returns
  normally; the first one is handed a view equal to the one before the call;
  \<^verbatim>\<open>openOrder\<close> and the subscriber set stay as they were, and, when the subscribers do
  not write to the objects they are handed either, so does every \<^verbatim>\<open>ModalState\<close> value.
\<close>

theorem closeModal_closed_notifies:
  assumes "runtime_ok s" "modals s i = Some a" "\<not> isOpen (objs s a)"
  shows "(members (subscribers s) \<noteq> [] \<longrightarrow>
        (\<forall>r s'. closeModal n c i s = Some (r, s') \<longrightarrow>
           hd (members (subscribers s)) \<in> set (notified s s')))
    \<and> (no_call_back c (members (subscribers s)) \<longrightarrow>
        (\<exists>r s'. closeModal n c i s = Some (r, s')
           \<and> fan_out c (members (subscribers s)) r (new_calls s s')
           \<and> (members (subscribers s) \<noteq> [] \<longrightarrow>
                new_calls s s' \<noteq> []
                \<and> fst (hd (new_calls s s')) = hd (members (subscribers s))
                \<and> fst (snd (hd (new_calls s s'))) = view (modals s) s)
           \<and> (\<forall>f. invocations f s s' \<le> 1)
           \<and> (r = Inr () \<longrightarrow> notified s s' = members (subscribers s))
           \<and> openOrder s' = openOrder s
           \<and> subscribers s' = subscribers s
           \<and> (read_only c (members (subscribers s)) \<longrightarrow>
                view (modals s') s' = view (modals s) s
                \<and> (\<forall>j. isModalOpen s' j = isModalOpen s j))))"
proof -
  have a: "hd (members (subscribers s)) \<in> set (notified s s')"
    if "members (subscribers s) \<noteq> []" "closeModal n c i s = Some (r, s')" for r s'
    by (rule closeModal_invokes_first[OF that(2,1) assms(2)])
  have b: "\<exists>r s'. closeModal n c i s = Some (r, s')
           \<and> fan_out c (members (subscribers s)) r (new_calls s s')
           \<and> (members (subscribers s) \<noteq> [] \<longrightarrow>
                new_calls s s' \<noteq> []
                \<and> fst (hd (new_calls s s')) = hd (members (subscribers s))
                \<and> fst (snd (hd (new_calls s s'))) = view (modals s) s)
           \<and> (\<forall>f. invocations f s s' \<le> 1)
           \<and> (r = Inr () \<longrightarrow> notified s s' = members (subscribers s))
           \<and> openOrder s' = openOrder s
           \<and> subscribers s' = subscribers s
           \<and> (read_only c (members (subscribers s)) \<longrightarrow>
                view (modals s') s' = view (modals s) s
                \<and> (\<forall>j. isModalOpen s' j = isModalOpen s j))"
    if "no_call_back c (members (subscribers s))"
  proof -
    obtain r s' where p: "closeModal_plain c i s = (r, s')" by (cases "closeModal_plain c i s") auto
    with closeModal_plain_eq[OF that, of n i] have "closeModal n c i s = Some (r, s')" by simp
    with closeModal_plain_closed[OF assms, of c] p show ?thesis by auto
  qed
  from a b show ?thesis by blast
qed

theorem closeModal_closed_notifies_witness:
  "runtime_ok (two_watching\<lparr>objs := (objs two_watching)(0 := \<lparr>id_ms = ''a'', isOpen = False\<rparr>)\<rparr>)
   \<and> modals (two_watching\<lparr>objs := (objs two_watching)(0 := \<lparr>id_ms = ''a'', isOpen = False\<rparr>)\<rparr>) ''a''
       = Some 0
   \<and> \<not> isModalOpen (two_watching\<lparr>objs := (objs two_watching)(0 := \<lparr>id_ms = ''a'', isOpen = False\<rparr>)\<rparr>) ''a''
   \<and> no_call_back quiet [0, 1] \<and> read_only quiet [0, 1]
   \<and> (\<exists>s'. closeModal 0 quiet ''a''
               (two_watching\<lparr>objs := (objs two_watching)(0 := \<lparr>id_ms = ''a'', isOpen = False\<rparr>)\<rparr>)
             = Some (Inr (), s')
         \<and> notified (two_watching\<lparr>objs := (objs two_watching)(0 := \<lparr>id_ms = ''a'', isOpen = False\<rparr>)\<rparr>) s'
             = [0, 1]
         \<and> \<not> isModalOpen s' ''a'')"
proof -
  let ?s = "two_watching\<lparr>objs := (objs two_watching)(0 := \<lparr>id_ms = ''a'', isOpen = False\<rparr>)\<rparr>"
  have ok: "runtime_ok ?s" by (simp add: runtime_ok_def two_watching_def)
  have ex: "modals ?s ''a'' = Some 0" by (simp add: two_watching_def)
  have cl: "\<not> isOpen (objs ?s 0)" by (simp add: two_watching_def)
  have me: "members (subscribers ?s) = [0, 1]" by (simp add: two_watching_def)
  have nc: "no_call_back quiet [0, 1]" by (simp add: no_call_back_def quiet_def)
  have ro: "read_only quiet [0, 1]" by (simp add: read_only_def quiet_def)
  have op: "\<not> isModalOpen ?s ''a''" using ex cl by (simp add: isModalOpen_def)
  have r: "\<And>r s'. closeModal 0 quiet ''a'' ?s = Some (r, s') \<Longrightarrow> r = Inr ()"
    by (simp add: closeModal_def closeModal_in_def notify_in_def forEach_def call_subscriber_def
        quiet_def two_watching_def Let_def)
  from closeModal_closed_notifies [OF ok ex cl, of 0 quiet] me nc ro
  obtain r s' where c: "closeModal 0 quiet ''a'' ?s = Some (r, s')"
    and all: "r = Inr () \<longrightarrow> notified ?s s' = [0, 1]"
    and same: "\<forall>j. isModalOpen s' j = isModalOpen ?s j" by auto
  from r[OF c] c all same op ok ex nc ro show ?thesis by auto
qed

text \<open>
  C2 as stated fails: a subscriber is registered, panel \<open>a\<close> is opened and closed, so
  its entry exists and is closed; a second \<^verbatim>\<open>closeModal('a')\<close> invokes the
  subscriber once more.
\<close>

theorem closeModal_closed_counterexample:
  "(case subscribe 0 quiet 3 ModalMediator of
      None \<Rightarrow> False
    | Some (r0, s0) \<Rightarrow>
        (case run 0 quiet [Open ''a'', Close ''a''] s0 of
           None \<Rightarrow> False
         | Some s \<Rightarrow>
             modals s ''a'' \<noteq> None \<and> \<not> isModalOpen s ''a'' \<and> members (subscribers s) = [3]
             \<and> (case closeModal 0 quiet ''a'' s of
                   None \<Rightarrow> False
                 | Some (r, s') \<Rightarrow> r = Inr () \<and> notified s s' = [3])))"
  by (simp add: ModalMediator_def openModal_def openModal_in_def closeModal_def closeModal_in_def
      notify_in_def forEach_def subscribe_def subscribe_in_def call_subscriber_def set_add_def
      quiet_def Let_def isModalOpen_def notified_def new_calls_def view_def)

section \<open>Opening a panel\<close>

text \<open>
  C5, as the code has it. \<^verbatim>\<open>openModal(i)\<close>, whether or not \<open>i\<close> is already open,
  is followed by a notification: whatever the subscribers do, if there is a registered
  subscriber and the call finishes, the first registered one has been invoked. When the
  registered subscribers do not call back into the service, the call finishes;
  \<open>i\<close> has been removed from \<^verbatim>\<open>openOrder\<close> and appended, so that it occurs once, at
  the tail; \<^verbatim>\<open>{ id: i, isOpen: true }\<close> is stored under \<open>i\<close> before the loop over the
  subscribers starts (the first subscriber is handed the old view with that entry); and
  the loop has run once: the subscribers are invoked in insertion order, each at most
  once, up to and including the first that throws. When the call returns normally,
  every registered subscriber has been invoked exactly once. When the subscribers do
  not write to the objects they are handed either, the entry of \<open>i\<close> is still
  \<^verbatim>\<open>{ id: i, isOpen: true }\<close> on return and the other entries are as before.
\<close>

theorem openModal_effect:
  assumes "runtime_ok s"
  shows "(members (subscribers s) \<noteq> [] \<longrightarrow>
        (\<forall>r s'. openModal n c i s = Some (r, s') \<longrightarrow>
           hd (members (subscribers s)) \<in> set (notified s s')))
    \<and> (no_call_back c (members (subscribers s)) \<longrightarrow>
        (\<exists>r s'. openModal n c i s = Some (r, s')
           \<and> openOrder s' = filter (\<lambda>j. j \<noteq> i) (openOrder s) @ [i]
           \<and> length (filter (\<lambda>j. j = i) (openOrder s')) = 1
           \<and> last (openOrder s') = i
           \<and> subscribers s' = subscribers s
           \<and> fan_out c (members (subscribers s)) r (new_calls s s')
           \<and> (members (subscribers s) \<noteq> [] \<longrightarrow>
                new_calls s s' \<noteq> []
                \<and> fst (hd (new_calls s s')) = hd (members (subscribers s))
                \<and> fst (snd (hd (new_calls s s')))
                    = (view (modals s) s)(i \<mapsto> \<lparr>id_ms = i, isOpen = True\<rparr>))
           \<and> (\<forall>f. invocations f s s' \<le> 1)
           \<and> (r = Inr () \<longrightarrow>
                notified s s' = members (subscribers s)
                \<and> (\<forall>f \<in> set (members (subscribers s)). invocations f s s' = 1))
           \<and> (read_only c (members (subscribers s)) \<longrightarrow>
                view (modals s') s' = (view (modals s) s)(i \<mapsto> \<lparr>id_ms = i, isOpen = True\<rparr>)
                \<and> isModalOpen s' i)))"
proof -
  have a: "hd (members (subscribers s)) \<in> set (notified s s')"
    if "members (subscribers s) \<noteq> []" "openModal n c i s = Some (r, s')" for r s'
    by (rule openModal_invokes_first[OF that(2,1)])
  have b: "\<exists>r s'. openModal n c i s = Some (r, s')
           \<and> openOrder s' = filter (\<lambda>j. j \<noteq> i) (openOrder s) @ [i]
           \<and> length (filter (\<lambda>j. j = i) (openOrder s')) = 1
           \<and> last (openOrder s') = i
           \<and> subscribers s' = subscribers s
           \<and> fan_out c (members (subscribers s)) r (new_calls s s')
           \<and> (members (subscribers s) \<noteq> [] \<longrightarrow>
                new_calls s s' \<noteq> []
                \<and> fst (hd (new_calls s s')) = hd (members (subscribers s))
                \<and> fst (snd (hd (new_calls s s')))
                    = (view (modals s) s)(i \<mapsto> \<lparr>id_ms = i, isOpen = True\<rparr>))
           \<and> (\<forall>f. invocations f s s' \<le> 1)
           \<and> (r = Inr () \<longrightarrow>
                notified s s' = members (subscribers s)
                \<and> (\<forall>f \<in> set (members (subscribers s)). invocations f s s' = 1))
           \<and> (read_only c (members (subscribers s)) \<longrightarrow>
                view (modals s') s' = (view (modals s) s)(i \<mapsto> \<lparr>id_ms = i, isOpen = True\<rparr>)
                \<and> isModalOpen s' i)"
    if "no_call_back c (members (subscribers s))"
  proof -
    obtain r s' where p: "openModal_plain c i s = (r, s')" by (cases "openModal_plain c i s") auto
    with openModal_plain_eq[OF that, of n i] have "openModal n c i s = Some (r, s')" by simp
    with openModal_plain_effect[OF assms, of c i] p show ?thesis by auto
  qed
  from a b show ?thesis by blast
qed

theorem openModal_effect_witness:
  "runtime_ok two_watching \<and> no_call_back quiet [0, 1] \<and> read_only quiet [0, 1]
   \<and> (\<exists>s'. openModal 0 quiet ''b'' two_watching = Some (Inr (), s')
         \<and> openOrder s' = [''a'', ''b'']
         \<and> notified two_watching s' = [0, 1]
         \<and> isModalOpen s' ''b'')"
proof -
  have ok: "runtime_ok two_watching" by (simp add: runtime_ok_def two_watching_def)
  have me: "members (subscribers two_watching) = [0, 1]" by (simp add: two_watching_def)
  have oo: "openOrder two_watching = [''a'']" by (simp add: two_watching_def)
  have nc: "no_call_back quiet [0, 1]" by (simp add: no_call_back_def quiet_def)
  have ro: "read_only quiet [0, 1]" by (simp add: read_only_def quiet_def)
  have r: "\<And>r s'. openModal 0 quiet ''b'' two_watching = Some (r, s') \<Longrightarrow> r = Inr ()"
    by (simp add: openModal_def openModal_in_def notify_in_def forEach_def call_subscriber_def
        quiet_def two_watching_def Let_def)
  from openModal_effect [OF ok, of 0 quiet "''b''"] me nc ro
  obtain r s' where c: "openModal 0 quiet ''b'' two_watching = Some (r, s')"
    and ord: "openOrder s' = filter (\<lambda>j. j \<noteq> ''b'') (openOrder two_watching) @ [''b'']"
    and all: "r = Inr () \<longrightarrow> notified two_watching s' = [0, 1]"
    and opn: "isModalOpen s' ''b''" by auto
  from r[OF c] c ord all opn oo ok nc ro show ?thesis by auto
qed

text \<open>
  C5 as stated fails in two ways, with subscribers \<open>0\<close> and \<open>1\<close> registered in that
  order. If \<open>0\<close> throws, \<^verbatim>\<open>openModal('b')\<close> throws and subscriber \<open>1\<close> is not invoked.
  If \<open>0\<close> calls the unsubscribe function of \<open>1\<close>, \<^verbatim>\<open>openModal('b')\<close> returns normally
  and subscriber \<open>1\<close>, registered when the call was made, is not invoked either: the
  loop walks the set as it is when it gets there.
\<close>

theorem openModal_counterexample:
  "members (subscribers two_watching) = [0, 1]
   \<and> (case openModal 0 grumpy ''b'' two_watching of
        None \<Rightarrow> False
      | Some (r, s') \<Rightarrow> r = Inl ''boom'' \<and> invocations 1 two_watching s' = 0)
   \<and> (case openModal 0 bouncer ''b'' two_watching of
        None \<Rightarrow> False
      | Some (r, s') \<Rightarrow> r = Inr () \<and> invocations 1 two_watching s' = 0
          \<and> notified two_watching s' = [0])"
  by (simp add: openModal_def openModal_in_def notify_in_def forEach_def call_subscriber_def
      grumpy_def bouncer_def two_watching_def Let_def invocations_def notified_def new_calls_def
      set_delete_def)


section \<open>Subscribing the same callback twice\<close>





end
